theory Spec2Isabelle
  imports Main "HOL-Library.Sublist"
begin

section \<open>Graph model (models.ts)\<close>

text \<open>
  Paths and names are JavaScript strings; they are modelled as \<open>string\<close> (lists of
  8-bit characters, each a code unit below 256).
  \<open>Node\<close> carries the fields \<open>mermaidify.ts\<close> reads: \<open>path\<close>, the file name
  \<open>name\<close>, and the optional flags \<open>isDirectory\<close> and \<open>highlight\<close>, an absent
  flag being \<open>False\<close>. Nodes are compared by \<open>path\<close> alone.
  The fields \<open>from\<close> and \<open>to\<close> of a relation are called \<open>rfrom\<close> and \<open>rto\<close>.
\<close>

record Node =
  path :: string
  name :: string
  isDirectory :: bool
  highlight :: bool

record Relation =
  rfrom :: Node
  rto :: Node
  fullText :: string

record Graph =
  nodes :: "Node list"
  relations :: "Relation list"

definition isSameNode :: "Node \<Rightarrow> Node \<Rightarrow> bool" where
  "isSameNode a b = (path a = path b)"

definition isSameRelation :: "Relation \<Rightarrow> Relation \<Rightarrow> bool" where
  "isSameRelation a b = (isSameNode (rfrom a) (rfrom b) \<and> isSameNode (rto a) (rto b))"

text \<open>
  Modelled from the spec: \<open>getUniqueNodes\<close>, \<open>getUniqueRelations\<close> (models) and
  \<open>extractUniqueNodes\<close> (utils) are imported by the filter from modules whose
  bodies are not among the files covered here. The spec says relations are "deduplicated by
  endpoint-path pair" and nodes are "explicit nodes first, encountered relation
  endpoints after, first-seen order preserved, duplicates by path removed". They are
  written as the accumulating reduce the tree builder uses for its own deduplication.
\<close>

definition pushUnique :: "('a \<Rightarrow> 'a \<Rightarrow> bool) \<Rightarrow> 'a \<Rightarrow> 'a list \<Rightarrow> 'a list" where
  "pushUnique same current pre =
     (if list_ex (\<lambda>x. same x current) pre then pre else pre @ [current])"

definition getUniqueNodes :: "Node list \<Rightarrow> Node list" where
  "getUniqueNodes ns = fold (pushUnique isSameNode) ns []"

definition getUniqueRelations :: "Relation list \<Rightarrow> Relation list" where
  "getUniqueRelations rs = fold (pushUnique isSameRelation) rs []"

definition endpoints :: "Relation list \<Rightarrow> Node list" where
  "endpoints rs = concat (map (\<lambda>r. [rfrom r, rto r]) rs)"

definition extractUniqueNodes :: "Graph \<Rightarrow> Node list" where
  "extractUniqueNodes g = getUniqueNodes (nodes g @ endpoints (relations g))"

section \<open>Strings\<close>

text \<open>
  \<open>toLowerCase\<close>. A character of the model is a code unit below 256, read as
  Latin-1: the cased letters in that range are A to Z and the letters from
  \<open>0xC0\<close> to \<open>0xDE\<close> without the multiplication sign \<open>0xD7\<close>, and each is
  lowered to the letter 32 places above it; every other character stays as it is.
\<close>

definition upperLetters :: "char list" where
  "upperLetters = ''ABCDEFGHIJKLMNOPQRSTUVWXYZ'' @ [
      CHR 0xC0, CHR 0xC1, CHR 0xC2, CHR 0xC3, CHR 0xC4, CHR 0xC5, CHR 0xC6, CHR 0xC7,
      CHR 0xC8, CHR 0xC9, CHR 0xCA, CHR 0xCB, CHR 0xCC, CHR 0xCD, CHR 0xCE, CHR 0xCF,
      CHR 0xD0, CHR 0xD1, CHR 0xD2, CHR 0xD3, CHR 0xD4, CHR 0xD5, CHR 0xD6, CHR 0xD8,
      CHR 0xD9, CHR 0xDA, CHR 0xDB, CHR 0xDC, CHR 0xDD, CHR 0xDE]"

definition lowerLetters :: "char list" where
  "lowerLetters = ''abcdefghijklmnopqrstuvwxyz'' @ [
      CHR 0xE0, CHR 0xE1, CHR 0xE2, CHR 0xE3, CHR 0xE4, CHR 0xE5, CHR 0xE6, CHR 0xE7,
      CHR 0xE8, CHR 0xE9, CHR 0xEA, CHR 0xEB, CHR 0xEC, CHR 0xED, CHR 0xEE, CHR 0xEF,
      CHR 0xF0, CHR 0xF1, CHR 0xF2, CHR 0xF3, CHR 0xF4, CHR 0xF5, CHR 0xF6, CHR 0xF8,
      CHR 0xF9, CHR 0xFA, CHR 0xFB, CHR 0xFC, CHR 0xFD, CHR 0xFE]"

definition toLowerChar :: "char \<Rightarrow> char" where
  "toLowerChar c =
     (case map_of (zip upperLetters lowerLetters) c of
        Some l \<Rightarrow> l
      | None \<Rightarrow> c)"

definition toLowerCase :: "string \<Rightarrow> string" where
  "toLowerCase s = map toLowerChar s"

text \<open>\<open>s.includes(w)\<close>: \<open>w\<close> occurs in \<open>s\<close> as a contiguous substring.\<close>

fun includesStr :: "string \<Rightarrow> string \<Rightarrow> bool" where
  "includesStr [] w = (w = [])"
| "includesStr (c # cs) w = (prefix w (c # cs) \<or> includesStr cs w)"

section \<open>Graph filter (filterGraph)\<close>

text \<open>
  The parameters \<open>include\<close> and \<open>exclude\<close> are called \<open>incl\<close> and \<open>excl\<close>.
  The body of \<open>filterGraph\<close> is written in its stages: the two working arrays after
  the include and exclude filters, the node set the bridge callback computes, the
  relations the callback keeps, and the result.
\<close>

definition pathMatches :: "string list \<Rightarrow> Node \<Rightarrow> bool" where
  "pathMatches ws node =
     list_ex (\<lambda>word. includesStr (toLowerCase (path node)) (toLowerCase word)) ws"

definition relationMatches :: "string list \<Rightarrow> Relation \<Rightarrow> bool" where
  "relationMatches ws r =
     list_ex (\<lambda>word. includesStr (toLowerCase (path (rfrom r))) (toLowerCase word) \<or>
                      includesStr (toLowerCase (path (rto r))) (toLowerCase word)) ws"

text \<open>
  The working sets \<open>tmpNodes\<close> and \<open>tmpRelations\<close> after the include and the exclude
  filters. An absent list is \<open>None\<close>; \<open>include && include.length !== 0\<close> is false
  for an absent and for an empty list.
\<close>

definition isActive :: "string list option \<Rightarrow> bool" where
  "isActive ws = (case ws of None \<Rightarrow> False | Some l \<Rightarrow> l \<noteq> [])"

definition tmpNodes :: "string list option \<Rightarrow> string list option \<Rightarrow> Graph \<Rightarrow> Node list" where
  "tmpNodes incl excl g =
     (let t1 = (if isActive incl then filter (pathMatches (the incl)) (nodes g) else nodes g)
      in if isActive excl then filter (\<lambda>node. \<not> pathMatches (the excl) node) t1 else t1)"

definition tmpRelations :: "string list option \<Rightarrow> string list option \<Rightarrow> Graph \<Rightarrow> Relation list" where
  "tmpRelations incl excl g =
     (let t1 = (if isActive incl then filter (relationMatches (the incl)) (relations g)
                else relations g)
      in if isActive excl then filter (\<lambda>r. \<not> relationMatches (the excl) r) t1 else t1)"

text \<open>
  \<open>relationNodes\<close> is what the callback of \<open>relations.filter\<close> computes: the
  deduplicated endpoints of the retained relations, keeping a node only when some kept
  node is a different node.
\<close>

definition relationNodes :: "Node list \<Rightarrow> Relation list \<Rightarrow> Node list" where
  "relationNodes tn tr =
     filter (\<lambda>node. list_ex (\<lambda>tmpNode. \<not> isSameNode node tmpNode) tn)
       (getUniqueNodes (endpoints tr))"

definition readmitted :: "Node list \<Rightarrow> Relation list \<Rightarrow> Relation list \<Rightarrow> Relation list" where
  "readmitted tn tr rs =
     filter (\<lambda>r. list_ex (\<lambda>node. isSameNode node (rfrom r)) (relationNodes tn tr) \<and>
                 list_ex (\<lambda>node. isSameNode node (rto r)) (relationNodes tn tr)) rs"

definition filterGraph :: "string list option \<Rightarrow> string list option \<Rightarrow> Graph \<Rightarrow> Graph" where
  "filterGraph incl excl g =
     (let tn = tmpNodes incl excl g;
          tr = tmpRelations incl excl g;
          tr' = getUniqueRelations (tr @ readmitted tn tr (relations g))
      in \<lparr> nodes = extractUniqueNodes \<lparr> nodes = tn, relations = tr' \<rparr>, relations = tr' \<rparr>)"

section \<open>String helpers of the tree builder and the serializer\<close>

text \<open>
  \<open>s.split(c)\<close> for a one-character separator: the result is never empty, and the
  empty string splits into one empty fragment.
\<close>

definition consHead :: "char \<Rightarrow> string list \<Rightarrow> string list" where
  "consHead c fs = (case fs of [] \<Rightarrow> [[c]] | f # r \<Rightarrow> (c # f) # r)"

fun splitOn :: "char \<Rightarrow> string \<Rightarrow> string list" where
  "splitOn sep [] = [[]]"
| "splitOn sep (c # cs) = (if c = sep then [] # splitOn sep cs else consHead c (splitOn sep cs))"

text \<open>\<open>xs.join(sep)\<close>.\<close>

fun joinWith :: "string \<Rightarrow> string list \<Rightarrow> string" where
  "joinWith sep [] = []"
| "joinWith sep [x] = x"
| "joinWith sep (x # y # ys) = x @ sep @ joinWith sep (y # ys)"

text \<open>
  \<open>s.replaceAll(pat, rep)\<close> and \<open>s.replace(pat, rep)\<close> for a string pattern and a
  replacement without dollar patterns: the occurrences are found from left to right
  and do not overlap; \<open>replace\<close> rewrites only the first one.
\<close>

function replaceAll :: "string \<Rightarrow> string \<Rightarrow> string \<Rightarrow> string" where
  "replaceAll [] rep s = rep @ concat (map (\<lambda>c. c # rep) s)"
| "replaceAll (p # ps) rep [] = []"
| "replaceAll (p # ps) rep (c # cs) =
     (if prefix (p # ps) (c # cs) then rep @ replaceAll (p # ps) rep (drop (length ps) cs)
      else c # replaceAll (p # ps) rep cs)"
  by pat_completeness auto
termination
  by (relation "measure (\<lambda>(pat, rep, s). length s)") auto

fun replaceFirst :: "string \<Rightarrow> string \<Rightarrow> string \<Rightarrow> string" where
  "replaceFirst pat rep [] = (if pat = [] then rep else [])"
| "replaceFirst pat rep (c # cs) =
     (if prefix pat (c # cs) then rep @ drop (length pat) (c # cs)
      else c # replaceFirst pat rep cs)"

section \<open>Identifier sanitizer (fileNameToMermaidId)\<close>

text \<open>
  The split pattern is the regular expression
  \<^verbatim>\<open>/@|\[|\]|-|>|<|{|}|\(|\)|=|&|\|~|,|"|%|\^|\*|_/\<close>.
  Its alternatives are single characters, except \<^verbatim>\<open>\|~\<close>, which is the
  two-character sequence of a bar followed by a tilde: no alternative matches a bar or
  a tilde alone. The double quote is written \<open>CHR 0x22\<close>.
\<close>

definition singleSeparators :: "char list" where
  "singleSeparators = ''@[]-><{}()=&,%^*_'' @ [CHR 0x22]"

fun splitId :: "string \<Rightarrow> string list" where
  "splitId [] = [[]]"
| "splitId [c] = (if c \<in> set singleSeparators then [[], []] else [[c]])"
| "splitId (c # d # cs) =
     (if c \<in> set singleSeparators then [] # splitId (d # cs)
      else if c = CHR ''|'' \<and> d = CHR ''~'' then [] # splitId cs
      else consHead c (splitId (d # cs)))"

definition fileNameToMermaidId :: "string \<Rightarrow> string" where
  "fileNameToMermaidId fileName =
     replaceAll ''class'' ''class_''
       (replaceAll ''graph'' ''graph_''
         (replaceAll ''style'' ''style_''
           (replaceAll ''/graph/'' ''/_graph_/''
             (joinWith ''//'' (splitId fileName)))))"

definition fileNameToMermaidName :: "string \<Rightarrow> string" where
  "fileNameToMermaidName fileName = joinWith ''//'' (splitOn (CHR 0x22) fileName)"

text \<open>The reserved characters the spec lists for identifiers.\<close>

definition reservedChars :: "char list" where
  "reservedChars = ''@[]-><{}()=&|~,%^*_'' @ [CHR 0x22]"

section \<open>Paths (the POSIX \<open>path.join\<close> of the platform library)\<close>

text \<open>
  \<open>path.join\<close> drops empty arguments, joins the others with a slash and normalises
  the result: empty and \<open>.\<close> segments vanish, a \<open>..\<close> segment removes the segment
  before it (unless there is none, or it is \<open>..\<close> itself, in which case a relative
  path keeps the \<open>..\<close>), and an empty result is \<open>.\<close>.
\<close>

definition normalizeStep :: "bool \<Rightarrow> string \<Rightarrow> string list \<Rightarrow> string list" where
  "normalizeStep allowAboveRoot seg res =
     (if seg = [] \<or> seg = ''.'' then res
      else if seg = ''..'' then
        (if res \<noteq> [] \<and> last res \<noteq> ''..'' then butlast res
         else if allowAboveRoot then res @ [''..''] else res)
      else res @ [seg])"

definition normalizeString :: "string \<Rightarrow> bool \<Rightarrow> string" where
  "normalizeString p allowAboveRoot =
     joinWith ''/'' (fold (normalizeStep allowAboveRoot) (splitOn (CHR ''/'') p) [])"

definition normalize :: "string \<Rightarrow> string" where
  "normalize p =
     (if p = [] then ''.''
      else
        (let isAbsolute = (hd p = CHR ''/'');
             trailingSeparator = (last p = CHR ''/'');
             res = normalizeString p (\<not> isAbsolute)
         in if res = [] then (if isAbsolute then ''/'' else if trailingSeparator then ''./'' else ''.'')
            else (if isAbsolute then ''/'' else []) @ res @ (if trailingSeparator then ''/'' else [])))"

definition pathJoin :: "string list \<Rightarrow> string" where
  "pathJoin args =
     (if filter (\<lambda>arg. arg \<noteq> []) args = [] then ''.''
      else normalize (joinWith ''/'' (filter (\<lambda>arg. arg \<noteq> []) args)))"

section \<open>Directory tree builder (createDirAndNodesTree)\<close>

datatype DirAndNodesTree =
  DirAndNodesTree (currentDir: string) (treeNodes: "Node list") (children: "DirAndNodesTree list")

text \<open>
  The local type \<open>DirAndNodes\<close>; its fields \<open>currentDir\<close> and \<open>nodes\<close> are called
  \<open>entryDir\<close> and \<open>entryNodes\<close> here. \<open>None\<close> stands for \<open>undefined\<close>.
\<close>

record DirAndNodes =
  entryDir :: string
  dirHierarchy :: "string list"
  entryNodes :: "Node list"

definition getDirectoryPath :: "string \<Rightarrow> string option" where
  "getDirectoryPath filePath =
     (let array = splitOn (CHR ''/'') filePath
      in if ''node_modules'' \<in> set array then Some ''node_modules''
         else if length array = 1 then None
         else Some (pathJoin (take (length array - 1) array)))"

definition pushAncestor :: "string \<Rightarrow> string list \<Rightarrow> string list" where
  "pushAncestor current prev =
     (if prev \<noteq> [] \<and> last prev \<noteq> [] then prev @ [pathJoin [last prev, current]]
      else prev @ [current])"

definition ancestorDirs :: "string option \<Rightarrow> string option list" where
  "ancestorDirs dirPath =
     (case dirPath of
        None \<Rightarrow> [None]
      | Some d \<Rightarrow> if d = [] then [None]
                  else map Some (fold pushAncestor (splitOn (CHR ''/'') d) []))"

definition pushDir :: "string option \<Rightarrow> string list \<Rightarrow> string list" where
  "pushDir current pre =
     (case current of
        None \<Rightarrow> pre
      | Some c \<Rightarrow> if c = [] then pre
                  else if list_ex (\<lambda>filePath. filePath = c) pre then pre
                  else pre @ [c])"

definition allDir :: "Graph \<Rightarrow> string list" where
  "allDir g =
     fold pushDir (concat (map ancestorDirs (map (\<lambda>node. getDirectoryPath (path node)) (nodes g)))) []"

definition dirAndNodes :: "Graph \<Rightarrow> DirAndNodes list" where
  "dirAndNodes g =
     map (\<lambda>dir. \<lparr> entryDir = dir, dirHierarchy = splitOn (CHR ''/'') dir,
                  entryNodes = filter (\<lambda>node. getDirectoryPath (path node) = Some dir) (nodes g) \<rparr>)
       (allDir g)"

text \<open>
  \<open>isChild\<close>: the length test is on integers (\<open>candidate.length - 1\<close> is \<open>-1\<close> for an
  empty candidate); the indices read by \<open>every\<close> are then in range.
\<close>

definition isChild :: "string list \<Rightarrow> string list \<Rightarrow> bool" where
  "isChild parentDirHierarchy candidate =
     (if int (length parentDirHierarchy) \<noteq> int (length candidate) - 1 then False
      else list_all (\<lambda>i. parentDirHierarchy ! i = candidate ! i) [0..<length parentDirHierarchy])"

definition childEntries :: "DirAndNodes list \<Rightarrow> DirAndNodes \<Rightarrow> DirAndNodes list" where
  "childEntries ds e = filter (\<lambda>item. isChild (dirHierarchy e) (dirHierarchy item)) ds"

text \<open>
  The recursion descends to entries of the same list whose hierarchy is one segment
  longer, so the distance to the total length of all hierarchies decreases.
\<close>

definition remainingDepth :: "DirAndNodes list \<Rightarrow> DirAndNodes \<Rightarrow> nat" where
  "remainingDepth ds e =
     Suc (sum_list (map (\<lambda>d. length (dirHierarchy d)) ds)) - length (dirHierarchy e)"

lemma childEntries_remainingDepth:
  assumes "x \<in> set (childEntries ds e)"
  shows "remainingDepth ds x < remainingDepth ds e"
proof -
  from assms have mem: "x \<in> set ds"
    and len: "length (dirHierarchy x) = Suc (length (dirHierarchy e))"
    by (auto simp: childEntries_def isChild_def split: if_splits)
  from mem have "length (dirHierarchy x) \<in> set (map (\<lambda>d. length (dirHierarchy d)) ds)"
    by simp
  then have "length (dirHierarchy x) \<le> sum_list (map (\<lambda>d. length (dirHierarchy d)) ds)"
    by (simp add: member_le_sum_list)
  with len show ?thesis by (simp add: remainingDepth_def)
qed

function createDirAndNodesRecursive :: "DirAndNodes list \<Rightarrow> DirAndNodes \<Rightarrow> DirAndNodesTree list" where
  "createDirAndNodesRecursive ds e =
     (if entryNodes e = [] \<and> length (childEntries ds e) \<le> 1
      then concat (map (createDirAndNodesRecursive ds) (childEntries ds e))
      else [DirAndNodesTree (entryDir e) (entryNodes e)
              (concat (map (createDirAndNodesRecursive ds) (childEntries ds e)))])"
  by pat_completeness auto
termination
  by (relation "measure (\<lambda>(ds, e). remainingDepth ds e)")
     (auto simp: childEntries_remainingDepth)

declare createDirAndNodesRecursive.simps [simp del]

definition createDirAndNodesTree :: "Graph \<Rightarrow> DirAndNodesTree list" where
  "createDirAndNodesTree g =
     concat (map (createDirAndNodesRecursive (dirAndNodes g))
       (filter (\<lambda>dirAndNode. length (dirHierarchy dirAndNode) = 1) (dirAndNodes g)))"

section \<open>Serializer (mermaidify)\<close>

text \<open>
  The sink is the sequence of the arguments passed to \<open>write\<close>, in call order;
  the callback \<open>write\<close> itself is \<open>writeArg\<close>.
  The options are the flags the serializer reads; an absent flag is \<open>False\<close>. The
  option \<open>highlight\<close> is called \<open>highlightStyle\<close> here, the loop that builds
  \<open>_indent\<close> is \<open>indentFor\<close>, and the line feed is \<open>CHR 0x0A\<close>.
\<close>

type_synonym sink = "string list"

definition writeArg :: "string \<Rightarrow> sink \<Rightarrow> sink" where
  "writeArg arg out = out @ [arg]"

record Options =
  LR :: bool
  TB :: bool
  abstraction :: bool
  highlightStyle :: bool
  mermaidLink :: bool
  rootDir :: string

definition indent :: string where
  "indent = ''    ''"

definition CLASSNAME_DIR :: string where
  "CLASSNAME_DIR = ''dir''"

definition CLASSNAME_HIGHLIGHT :: string where
  "CLASSNAME_HIGHLIGHT = ''highlight''"

definition newline :: string where
  "newline = [CHR 0x0A]"

primrec indentFor :: "nat \<Rightarrow> string" where
  "indentFor 0 = indent"
| "indentFor (Suc i) = indentFor i @ indent"

definition subgraphLabel :: "string option \<Rightarrow> string \<Rightarrow> string" where
  "subgraphLabel parent dir =
     (case parent of
        None \<Rightarrow> dir
      | Some p \<Rightarrow> if p \<noteq> [] then replaceFirst p [] dir else dir)"

definition subgraphLine :: "string \<Rightarrow> string option \<Rightarrow> string \<Rightarrow> string" where
  "subgraphLine ind parent dir =
     ind @ ''subgraph '' @ fileNameToMermaidId dir @ ''['' @ [CHR 0x22] @
     fileNameToMermaidName (subgraphLabel parent dir) @ [CHR 0x22] @ '']''"

definition nodeLine :: "string \<Rightarrow> Node \<Rightarrow> string" where
  "nodeLine ind node =
     ind @ indent @ fileNameToMermaidId (path node) @ ''['' @ [CHR 0x22] @
     fileNameToMermaidName (name node) @ [CHR 0x22] @ '']'' @
     (if highlight node then '':::'' @ CLASSNAME_HIGHLIGHT
      else if isDirectory node then '':::'' @ CLASSNAME_DIR
      else [])"

fun addGraph :: "DirAndNodesTree \<Rightarrow> nat \<Rightarrow> string option \<Rightarrow> sink \<Rightarrow> sink"
  and addGraphs :: "DirAndNodesTree list \<Rightarrow> nat \<Rightarrow> string option \<Rightarrow> sink \<Rightarrow> sink" where
  "addGraph (DirAndNodesTree dir ns cs) indentNumber parent out =
     writeArg newline
       (writeArg (indentFor indentNumber @ ''end'')
         (addGraphs cs (indentNumber + 1) (Some dir)
           (fold (\<lambda>node o1. writeArg newline (writeArg (nodeLine (indentFor indentNumber) node) o1)) ns
             (writeArg newline
               (writeArg (subgraphLine (indentFor indentNumber) parent dir) out)))))"
| "addGraphs [] indentNumber parent out = out"
| "addGraphs (child # cs) indentNumber parent out =
     addGraphs cs indentNumber parent (addGraph child indentNumber parent out)"

definition writeFileNodesWithSubgraph :: "DirAndNodesTree list \<Rightarrow> sink \<Rightarrow> sink" where
  "writeFileNodesWithSubgraph trees out = fold (\<lambda>tree o1. addGraph tree 0 None o1) trees out"

definition arrowLine :: "Relation \<Rightarrow> string" where
  "arrowLine relation =
     ''    '' @ fileNameToMermaidId (path (rfrom relation)) @ ''-->'' @
     fileNameToMermaidId (path (rto relation))"

definition writeRelations :: "Relation list \<Rightarrow> sink \<Rightarrow> sink" where
  "writeRelations rs out =
     fold (\<lambda>relation o1. writeArg newline (writeArg (arrowLine relation) o1)) rs out"

definition linkLine :: "string \<Rightarrow> Node \<Rightarrow> string" where
  "linkLine root node =
     indent @ ''click '' @ fileNameToMermaidId (path node) @ '' href '' @ [CHR 0x22] @
     ''vscode://file/'' @ pathJoin [root, path node] @ [CHR 0x22] @ '' _blank''"

fun addLink :: "DirAndNodesTree \<Rightarrow> string \<Rightarrow> sink \<Rightarrow> sink"
  and addLinks :: "DirAndNodesTree list \<Rightarrow> string \<Rightarrow> sink \<Rightarrow> sink" where
  "addLink (DirAndNodesTree dir ns cs) root out =
     addLinks cs root
       (fold (\<lambda>node o1. writeArg newline (writeArg (linkLine root node) o1)) ns out)"
| "addLinks [] root out = out"
| "addLinks (child # cs) root out = addLinks cs root (addLink child root out)"

definition writeFileLink :: "DirAndNodesTree list \<Rightarrow> string \<Rightarrow> sink \<Rightarrow> sink" where
  "writeFileLink trees root out = fold (\<lambda>tree o1. addLink tree root o1) trees out"

definition writeHeader :: "Options \<Rightarrow> sink \<Rightarrow> sink" where
  "writeHeader options out =
     (let o1 = (if LR options then writeArg (''flowchart LR'' @ newline) out
                else if TB options then writeArg (''flowchart TB'' @ newline) out
                else writeArg (''flowchart'' @ newline) out);
          o2 = (if abstraction options
                then writeArg (indent @ ''classDef '' @ CLASSNAME_DIR @ '' fill:#0000,stroke:#999'' @ newline) o1
                else o1)
      in if highlightStyle options
         then writeArg (indent @ ''classDef '' @ CLASSNAME_HIGHLIGHT @ '' fill:yellow,color:black'' @ newline) o2
         else o2)"

text \<open>
  \<open>mermaidifyWith\<close> is the body of \<open>mermaidify\<close> after the tree has been built;
  \<open>mermaidify\<close> builds the tree and runs it.
\<close>

definition mermaidifyWith :: "DirAndNodesTree list \<Rightarrow> Options \<Rightarrow> Graph \<Rightarrow> sink \<Rightarrow> sink" where
  "mermaidifyWith dirAndNodesTree options graph out =
     (let o1 = writeFileNodesWithSubgraph dirAndNodesTree (writeHeader options out);
          o2 = writeRelations (relations graph) o1
      in if mermaidLink options then writeFileLink dirAndNodesTree (rootDir options) o2 else o2)"

definition mermaidify :: "Options \<Rightarrow> Graph \<Rightarrow> sink \<Rightarrow> sink" where
  "mermaidify options graph out =
     mermaidifyWith (createDirAndNodesTree graph) options graph out"

section \<open>The recursions on a call stack of bounded depth\<close>







text \<open>The number of levels of the deepest directory of a list of entries.\<close>

definition maxList :: "nat list \<Rightarrow> nat" where
  "maxList xs = foldr max xs 0"


text \<open>The number of levels of a tree.\<close>

fun height :: "DirAndNodesTree \<Rightarrow> nat" where
  "height (DirAndNodesTree dir ns cs) = Suc (maxList (map height cs))"

section \<open>The graph filter on a store of arrays\<close>

text \<open>
  JavaScript arrays are mutable objects, and a graph holds references to its two
  arrays. To state what the filter does to the arrays it is given, the array
  operations of \<open>filterGraph\<close> are written on a store: an array is a cell of the
  store, a reference is the index of its cell, and every operation that returns a new
  array in JavaScript (the spread copy, \<open>filter\<close>, \<open>map\<close>, \<open>flat\<close>, \<open>concat\<close>)
  allocates a cell. No statement of \<open>filterGraph\<close> assigns to an element of an array
  or calls a mutating method, so no operation here overwrites a cell. The nested
  arrays of pairs made by \<open>map\<close> are not arrays of nodes and are left out.

  Modelled from the spec: \<open>getUniqueNodes\<close>, \<open>getUniqueRelations\<close> and
  \<open>extractUniqueNodes\<close> are outside the files covered here; the spec says the filter
  "allocates new structures and never mutates its inputs", so each returns a new array.
\<close>

record Store =
  nodeArrays :: "Node list list"
  relationArrays :: "Relation list list"

record GraphRef =
  nodesRef :: nat
  relationsRef :: nat

definition nodesOf :: "Store \<Rightarrow> nat \<Rightarrow> Node list" where
  "nodesOf s r = nodeArrays s ! r"

definition relationsOf :: "Store \<Rightarrow> nat \<Rightarrow> Relation list" where
  "relationsOf s r = relationArrays s ! r"

definition graphOf :: "Store \<Rightarrow> GraphRef \<Rightarrow> Graph" where
  "graphOf s gr = \<lparr> nodes = nodesOf s (nodesRef gr), relations = relationsOf s (relationsRef gr) \<rparr>"

definition validRef :: "Store \<Rightarrow> GraphRef \<Rightarrow> bool" where
  "validRef s gr = (nodesRef gr < length (nodeArrays s) \<and> relationsRef gr < length (relationArrays s))"

definition newNodes :: "Node list \<Rightarrow> Store \<Rightarrow> nat \<times> Store" where
  "newNodes xs s = (length (nodeArrays s), s\<lparr> nodeArrays := nodeArrays s @ [xs] \<rparr>)"

definition newRelations :: "Relation list \<Rightarrow> Store \<Rightarrow> nat \<times> Store" where
  "newRelations xs s = (length (relationArrays s), s\<lparr> relationArrays := relationArrays s @ [xs] \<rparr>)"

text \<open>
  The callback of \<open>relations.filter\<close>: it builds \<open>relationNodes\<close> through three new
  arrays (\<open>flat\<close>, \<open>getUniqueNodes\<close>, \<open>filter\<close>) and tests the two endpoints.
\<close>

definition bridgeCallback :: "nat \<Rightarrow> nat \<Rightarrow> Relation \<Rightarrow> Store \<Rightarrow> bool \<times> Store" where
  "bridgeCallback tn tr r s =
     (let (flat, s1) = newNodes (endpoints (relationsOf s tr)) s;
          (uniq, s2) = newNodes (getUniqueNodes (nodesOf s1 flat)) s1;
          (relNodes, s3) =
            newNodes (filter (\<lambda>node. list_ex (\<lambda>tmpNode. \<not> isSameNode node tmpNode) (nodesOf s2 tn))
                        (nodesOf s2 uniq)) s2
      in (list_ex (\<lambda>node. isSameNode node (rfrom r)) (nodesOf s3 relNodes) \<and>
          list_ex (\<lambda>node. isSameNode node (rto r)) (nodesOf s3 relNodes), s3))"

text \<open>\<open>filter\<close> with a callback that uses the store: the kept elements and the final store.\<close>

fun filterOnStore ::
    "(Relation \<Rightarrow> Store \<Rightarrow> bool \<times> Store) \<Rightarrow> Relation list \<Rightarrow> Store \<Rightarrow> Relation list \<times> Store" where
  "filterOnStore cb [] s = ([], s)"
| "filterOnStore cb (r # rs) s =
     (let (keep, s1) = cb r s;
          (kept, s2) = filterOnStore cb rs s1
      in (if keep then r # kept else kept, s2))"

text \<open>The statements of \<open>filterGraph\<close> up to the exclude filter: the two working arrays.\<close>

definition workingSetsOnStore ::
    "string list option \<Rightarrow> string list option \<Rightarrow> GraphRef \<Rightarrow> Store \<Rightarrow> nat \<times> nat \<times> Store" where
  "workingSetsOnStore incl excl gr s =
     (let (tn0, s1) = newNodes (nodesOf s (nodesRef gr)) s;
          (tr0, s2) = newRelations (relationsOf s1 (relationsRef gr)) s1;
          (tn1, tr1, s4) =
            (if isActive incl then
               (let (a, s3) = newNodes (filter (pathMatches (the incl)) (nodesOf s2 tn0)) s2;
                    (b, s4) = newRelations (filter (relationMatches (the incl)) (relationsOf s3 tr0)) s3
                in (a, b, s4))
             else (tn0, tr0, s2))
      in if isActive excl then
           (let (a, s5) = newNodes (filter (\<lambda>node. \<not> pathMatches (the excl) node) (nodesOf s4 tn1)) s4;
                (b, s6) = newRelations (filter (\<lambda>r. \<not> relationMatches (the excl) r) (relationsOf s5 tr1)) s5
            in (a, b, s6))
         else (tn1, tr1, s4))"

text \<open>The rest of \<open>filterGraph\<close>: the bridge relations, the deduplication and the result.\<close>

definition filterGraphOnStore ::
    "string list option \<Rightarrow> string list option \<Rightarrow> GraphRef \<Rightarrow> Store \<Rightarrow> GraphRef \<times> Store" where
  "filterGraphOnStore incl excl gr s =
     (let (tn2, tr2, s6) = workingSetsOnStore incl excl gr s;
          (kept, s7) = filterOnStore (bridgeCallback tn2 tr2) (relationsOf s6 (relationsRef gr)) s6;
          (readm, s8) = newRelations kept s7;
          (cat, s9) = newRelations (relationsOf s8 tr2 @ relationsOf s8 readm) s8;
          (tr3, s10) = newRelations (getUniqueRelations (relationsOf s9 cat)) s9;
          (allNodes, s11) = newNodes (nodesOf s10 tn2 @ endpoints (relationsOf s10 tr3)) s10;
          (ns, s12) = newNodes (getUniqueNodes (nodesOf s11 allNodes)) s11
      in (\<lparr> nodesRef = ns, relationsRef = tr3 \<rparr>, s12))"

text \<open>One store extends another: every cell of the first is a cell of the second, unchanged.\<close>

definition extends :: "Store \<Rightarrow> Store \<Rightarrow> bool" where
  "extends s s' = (prefix (nodeArrays s) (nodeArrays s') \<and> prefix (relationArrays s) (relationArrays s'))"

section \<open>Shapes of normalised paths\<close>

text \<open>
  A plain segment is what a directory name usually is: not empty, not \<open>.\<close> or
  \<open>..\<close>, and free of slashes. A normalised relative path is a run of \<open>..\<close>
  segments followed by plain segments.
\<close>

definition plainSeg :: "string \<Rightarrow> bool" where
  "plainSeg s = (s \<noteq> [] \<and> s \<noteq> ''.'' \<and> s \<noteq> ''..'' \<and> CHR ''/'' \<notin> set s)"

inductive normalSegs :: "string list \<Rightarrow> bool" where
  nil: "normalSegs []"
| plain: "normalSegs ss \<Longrightarrow> plainSeg x \<Longrightarrow> normalSegs (ss @ [x])"
| up: "normalSegs ss \<Longrightarrow> list_all (\<lambda>s. s = ''..'') ss \<Longrightarrow> normalSegs (ss @ [''..''])"

text \<open>The segments of a directory name: there is one, and none is empty or holds a slash.\<close>

definition goodSegs :: "string list \<Rightarrow> bool" where
  "goodSegs H = (H \<noteq> [] \<and> (\<forall>s \<in> set H. s \<noteq> [] \<and> CHR ''/'' \<notin> set s))"

section \<open>Observing a forest\<close>

text \<open>All tree nodes of a tree and of a forest, parents before children.\<close>

fun allTreeNodes :: "DirAndNodesTree \<Rightarrow> DirAndNodesTree list" where
  "allTreeNodes (DirAndNodesTree d ns cs) =
     DirAndNodesTree d ns cs # concat (map allTreeNodes cs)"

definition forestNodes :: "DirAndNodesTree list \<Rightarrow> DirAndNodesTree list" where
  "forestNodes ts = concat (map allTreeNodes ts)"

text \<open>
  What the tree recursion relies on in the list of directory entries: every hierarchy
  is the split of its directory, no directory is listed twice, and every non-empty
  proper prefix of a hierarchy is the hierarchy of an entry.
\<close>

definition wellFormedDirs :: "DirAndNodes list \<Rightarrow> bool" where
  "wellFormedDirs ds =
     (distinct (map entryDir ds) \<and>
      (\<forall>e \<in> set ds. dirHierarchy e = splitOn (CHR ''/'') (entryDir e) \<and>
         (\<forall>j. 1 \<le> j \<and> j \<le> length (dirHierarchy e) \<longrightarrow>
            (\<exists>a \<in> set ds. dirHierarchy a = take j (dirHierarchy e)))))"

text \<open>The tree nodes of the forest of a graph that hold a given node.\<close>

definition holders :: "Node \<Rightarrow> Graph \<Rightarrow> DirAndNodesTree list" where
  "holders n g = filter (\<lambda>t. n \<in> set (treeNodes t)) (forestNodes (createDirAndNodesTree g))"

text \<open>The tree nodes of the forest of a graph that stand for a given directory.\<close>

definition treeNodesFor :: "string \<Rightarrow> Graph \<Rightarrow> DirAndNodesTree list" where
  "treeNodesFor d g = filter (\<lambda>t. currentDir t = d) (forestNodes (createDirAndNodesTree g))"

section \<open>Example graphs\<close>

definition nodeAt :: "string \<Rightarrow> Node" where
  "nodeAt p = \<lparr> path = p, name = p, isDirectory = False, highlight = False \<rparr>"

definition rel :: "string \<Rightarrow> string \<Rightarrow> Relation" where
  "rel a b = \<lparr> rfrom = nodeAt a, rto = nodeAt b, fullText = [] \<rparr>"

definition relationKey :: "Relation \<Rightarrow> string \<times> string" where
  "relationKey r = (path (rfrom r), path (rto r))"

definition abGraph :: Graph where
  "abGraph = \<lparr> nodes = [nodeAt ''a'', nodeAt ''b''], relations = [rel ''a'' ''b''] \<rparr>"

definition dupGraph :: Graph where
  "dupGraph = \<lparr> nodes = [nodeAt ''a'', nodeAt ''b''],
                relations = [rel ''a'' ''b'', rel ''a'' ''b''] \<rparr>"

definition danglingGraph :: Graph where
  "danglingGraph = \<lparr> nodes = [nodeAt ''b'', nodeAt ''c''],
       relations = [rel ''a'' ''b'', rel ''a'' ''c'', rel ''b'' ''c''] \<rparr>"

definition triangleGraph :: Graph where
  "triangleGraph = \<lparr> nodes = [nodeAt ''a'', nodeAt ''b'', nodeAt ''c''],
       relations = [rel ''a'' ''b'', rel ''a'' ''c'', rel ''b'' ''c''] \<rparr>"

definition deepGraph :: Graph where
  "deepGraph = \<lparr> nodes = [nodeAt ''a/b/c/x'', nodeAt ''a/b/c/y''], relations = [] \<rparr>"

definition nestedGraph :: Graph where
  "nestedGraph = \<lparr> nodes = [nodeAt ''a/x'', nodeAt ''a/b/y''], relations = [] \<rparr>"

definition topLevelGraph :: Graph where
  "topLevelGraph = \<lparr> nodes = [nodeAt ''index.ts'', nodeAt ''src/a.ts''], relations = [] \<rparr>"

definition emptyDirA :: DirAndNodes where
  "emptyDirA = \<lparr> entryDir = ''a'', dirHierarchy = [''a''], entryNodes = [] \<rparr>"

definition ownerDirA :: DirAndNodes where
  "ownerDirA = \<lparr> entryDir = ''a'', dirHierarchy = [''a''], entryNodes = [nodeAt ''a/x''] \<rparr>"



definition triangleStore :: Store where
  "triangleStore = \<lparr> nodeArrays = [nodes triangleGraph], relationArrays = [relations triangleGraph] \<rparr>"

definition triangleRef :: GraphRef where
  "triangleRef = \<lparr> nodesRef = 0, relationsRef = 0 \<rparr>"



section \<open>Properties of the graph filter\<close>

lemma isSameNode_key: "isSameNode a b \<longleftrightarrow> path a = path b"
  by (simp add: isSameNode_def)

lemma isSameRelation_key: "isSameRelation a b \<longleftrightarrow> relationKey a = relationKey b"
  by (simp add: isSameRelation_def isSameNode_def relationKey_def)

text \<open>Deduplication with an accumulator, for a sameness test induced by a key.\<close>

lemma list_ex_same_key:
  assumes "\<And>a b. same a b \<longleftrightarrow> key a = key b"
  shows "list_ex (\<lambda>y. same y x) acc \<longleftrightarrow> key x \<in> key ` set acc"
  unfolding list_ex_iff using assms by force

lemma pushUnique_key:
  assumes "\<And>a b. same a b \<longleftrightarrow> key a = key b"
  shows "pushUnique same x acc = (if key x \<in> key ` set acc then acc else acc @ [x])"
  using list_ex_same_key [of same key x acc] assms by (simp add: pushUnique_def)

lemma fold_pushUnique_keys:
  assumes "\<And>a b. same a b \<longleftrightarrow> key a = key b"
  shows "key ` set (fold (pushUnique same) xs acc) = key ` set acc \<union> key ` set xs"
proof (induction xs arbitrary: acc)
  case Nil
  show ?case by simp
next
  case (Cons x xs)
  have "key ` set (pushUnique same x acc) = insert (key x) (key ` set acc)"
    by (auto simp: pushUnique_key [of same key, OF assms])
  with Cons show ?case by auto
qed

lemma fold_pushUnique_absorb:
  assumes "\<And>a b. same a b \<longleftrightarrow> key a = key b"
    and "key ` set xs \<subseteq> key ` set acc"
  shows "fold (pushUnique same) xs acc = acc"
  using assms(2)
proof (induction xs)
  case Nil
  show ?case by simp
next
  case (Cons x xs)
  then have "pushUnique same x acc = acc"
    by (auto simp: pushUnique_key [of same key, OF assms(1)])
  with Cons show ?case by simp
qed

lemma fold_pushUnique_fresh:
  assumes "\<And>a b. same a b \<longleftrightarrow> key a = key b"
    and "distinct (map key xs)" and "key ` set xs \<inter> key ` set acc = {}"
  shows "fold (pushUnique same) xs acc = acc @ xs"
  using assms(2,3)
proof (induction xs arbitrary: acc)
  case Nil
  show ?case by simp
next
  case (Cons x xs)
  have step: "pushUnique same x acc = acc @ [x]"
    using Cons.prems(2) by (auto simp: pushUnique_key [of same key, OF assms(1)])
  have "key ` set xs \<inter> key ` set (acc @ [x]) = {}"
    using Cons.prems by auto
  with Cons show ?case by (simp add: step)
qed


lemma getUniqueRelations_absorb:
  "relationKey ` set ys \<subseteq> relationKey ` set xs \<Longrightarrow>
   getUniqueRelations (xs @ ys) = getUniqueRelations xs"
proof -
  assume sub: "relationKey ` set ys \<subseteq> relationKey ` set xs"
  have "relationKey ` set (fold (pushUnique isSameRelation) xs []) = relationKey ` set xs"
    using fold_pushUnique_keys [of isSameRelation relationKey xs "[]"] isSameRelation_key
    by simp
  then show ?thesis
    using fold_pushUnique_absorb [of isSameRelation relationKey ys
        "fold (pushUnique isSameRelation) xs []"] isSameRelation_key sub
    by (simp add: getUniqueRelations_def)
qed

lemma filterGraph_absent_relations:
  "relations (filterGraph None None g) = getUniqueRelations (relations g)"
proof -
  have "relationKey ` set (readmitted (nodes g) (relations g) (relations g))
          \<subseteq> relationKey ` set (relations g)"
    by (auto simp: readmitted_def)
  then show ?thesis
    by (simp add: filterGraph_def tmpNodes_def tmpRelations_def isActive_def Let_def
        getUniqueRelations_absorb)
qed

lemma filterGraph_absent_nodes:
  "nodes (filterGraph None None g) =
     getUniqueNodes (nodes g @ endpoints (getUniqueRelations (relations g)))"
  using filterGraph_absent_relations [of g]
  by (simp add: filterGraph_def tmpNodes_def tmpRelations_def isActive_def Let_def
      extractUniqueNodes_def)

lemma getUniqueRelations_distinct_id:
  "distinct (map relationKey rs) \<Longrightarrow> getUniqueRelations rs = rs"
  using fold_pushUnique_fresh [of isSameRelation relationKey rs "[]"] isSameRelation_key
  by (simp add: getUniqueRelations_def)

lemma getUniqueNodes_closed_id:
  assumes "distinct (map path ns)" and "path ` set es \<subseteq> path ` set ns"
  shows "getUniqueNodes (ns @ es) = ns"
proof -
  have a: "fold (pushUnique isSameNode) ns [] = ns"
    using fold_pushUnique_fresh [of isSameNode path ns "[]"] isSameNode_key assms(1)
    by simp
  have "fold (pushUnique isSameNode) es ns = ns"
    using fold_pushUnique_absorb [of isSameNode path es ns] isSameNode_key assms(2)
    by simp
  with a show ?thesis by (simp add: getUniqueNodes_def)
qed

text \<open>
  Claim C1 (as amended). Filtering with both lists absent keeps the first occurrence
  of every relation (by endpoint-path pair) and returns the nodes followed by the
  relation endpoints, deduplicated by path. For a graph whose node paths are distinct,
  whose relations have distinct endpoint-path pairs and whose relation endpoints all
  occur among its nodes, the result is the graph itself: the same nodes and the same
  relations in the same order.
\<close>

theorem filterGraph_identity:
  "relations (filterGraph None None g) = getUniqueRelations (relations g) \<and>
   nodes (filterGraph None None g) =
     getUniqueNodes (nodes g @ endpoints (getUniqueRelations (relations g))) \<and>
   (distinct (map path (nodes g)) \<and> distinct (map relationKey (relations g)) \<and>
    path ` set (endpoints (relations g)) \<subseteq> path ` set (nodes g)
      \<longrightarrow> filterGraph None None g = g)"
proof (intro conjI impI)
  show "relations (filterGraph None None g) = getUniqueRelations (relations g)"
    by (rule filterGraph_absent_relations)
  show "nodes (filterGraph None None g) =
     getUniqueNodes (nodes g @ endpoints (getUniqueRelations (relations g)))"
    by (rule filterGraph_absent_nodes)
  assume h: "distinct (map path (nodes g)) \<and> distinct (map relationKey (relations g)) \<and>
    path ` set (endpoints (relations g)) \<subseteq> path ` set (nodes g)"
  then have r: "relations (filterGraph None None g) = relations g"
    by (simp add: filterGraph_absent_relations getUniqueRelations_distinct_id)
  have n: "nodes (filterGraph None None g) = nodes g"
    using h by (simp add: filterGraph_absent_nodes getUniqueRelations_distinct_id
        getUniqueNodes_closed_id)
  show "filterGraph None None g = g"
    using r n by simp
qed

text \<open>
  A relation listed twice is returned once, so the relation sequence of the result
  differs from the input's.
\<close>

theorem filterGraph_identity_counterexample:
  "map relationKey (relations (filterGraph None None dupGraph)) \<noteq>
   map relationKey (relations dupGraph)"
  by (simp add: filterGraph_def tmpNodes_def tmpRelations_def isActive_def Let_def dupGraph_def
    readmitted_def relationNodes_def getUniqueRelations_def getUniqueNodes_def pushUnique_def
    endpoints_def isSameRelation_def isSameNode_def nodeAt_def rel_def relationKey_def)

theorem filterGraph_identity_witness:
  "distinct (map path (nodes abGraph)) \<and> distinct (map relationKey (relations abGraph)) \<and>
   path ` set (endpoints (relations abGraph)) \<subseteq> path ` set (nodes abGraph) \<and>
   filterGraph None None abGraph = abGraph"
proof -
  have h: "distinct (map path (nodes abGraph)) \<and> distinct (map relationKey (relations abGraph)) \<and>
    path ` set (endpoints (relations abGraph)) \<subseteq> path ` set (nodes abGraph)"
    by (simp add: abGraph_def endpoints_def nodeAt_def rel_def relationKey_def)
  with filterGraph_identity [of abGraph] show ?thesis by blast
qed













lemmas eval_filter = filterGraph_def tmpNodes_def tmpRelations_def isActive_def Let_def
    readmitted_def relationNodes_def getUniqueRelations_def getUniqueNodes_def pushUnique_def
    endpoints_def isSameRelation_def isSameNode_def nodeAt_def rel_def relationKey_def
    relationMatches_def pathMatches_def toLowerCase_def toLowerChar_def upperLetters_def lowerLetters_def
    extractUniqueNodes_def










text \<open>
  The graph filter does not require that invariant of its input. Without it the kept
  node may be missing: with the include list \<open>[a]\<close>, the nodes \<open>b\<close> and \<open>c\<close> and
  a relation from a path \<open>a\<close> that is no node, no node is kept and the relation from
  \<open>b\<close> to \<open>c\<close> stays out.
\<close>

lemma readmission_outside_invariant:
  "\<not> path ` set (endpoints (relations danglingGraph)) \<subseteq> path ` set (nodes danglingGraph) \<and>
   tmpNodes (Some [''a'']) None danglingGraph = [] \<and>
   \<not> list_ex (isSameRelation (rel ''b'' ''c''))
       (relations (filterGraph (Some [''a'']) None danglingGraph))"
  by (simp add: eval_filter danglingGraph_def)

text \<open>An include word with an accented letter matches a path with its capital.\<close>

lemma pathMatches_accented:
  "toLowerCase [CHR 0xC9, CHR ''A'', CHR ''z''] = [CHR 0xE9, CHR ''a'', CHR ''z''] \<and>
   pathMatches [[CHR 0xE9]] (nodeAt [CHR 0xC9])"
  by (simp add: pathMatches_def nodeAt_def toLowerCase_def toLowerChar_def upperLetters_def
      lowerLetters_def)

section \<open>Properties of splitting, joining and path normalisation\<close>

lemma splitOn_nonempty: "splitOn sep s \<noteq> []"
  by (induction s) (auto simp: consHead_def split: list.splits)

lemma splitOn_no_sep: "f \<in> set (splitOn sep s) \<Longrightarrow> sep \<notin> set f"
proof (induction s arbitrary: f)
  case Nil
  then show ?case by simp
next
  case (Cons c cs)
  then show ?case
    by (cases "splitOn sep cs") (auto simp: consHead_def split: if_splits)
qed

lemma joinWith_Cons: "ys \<noteq> [] \<Longrightarrow> joinWith sep (x # ys) = x @ sep @ joinWith sep ys"
  by (cases ys) auto

lemma joinWith_consHead:
  "joinWith sep (consHead c fs) = c # joinWith sep fs"
proof (cases fs)
  case Nil
  then show ?thesis by (simp add: consHead_def)
next
  case (Cons f r)
  then show ?thesis by (cases r) (auto simp: consHead_def)
qed

lemma joinWith_splitOn: "joinWith [sep] (splitOn sep s) = s"
  by (induction s) (auto simp: joinWith_Cons joinWith_consHead splitOn_nonempty)

lemma splitOn_append_sep:
  "sep \<notin> set x \<Longrightarrow> splitOn sep (x @ sep # rest) = x # splitOn sep rest"
  by (induction x) (auto simp: consHead_def)

lemma splitOn_plain: "sep \<notin> set x \<Longrightarrow> splitOn sep x = [x]"
  by (induction x) (auto simp: consHead_def)

lemma splitOn_joinWith:
  "segs \<noteq> [] \<Longrightarrow> (\<forall>f \<in> set segs. sep \<notin> set f) \<Longrightarrow>
   splitOn sep (joinWith [sep] segs) = segs"
proof (induction segs)
  case Nil
  then show ?case by simp
next
  case (Cons x xs)
  show ?case
  proof (cases "xs = []")
    case True
    with Cons.prems show ?thesis by (simp add: splitOn_plain)
  next
    case False
    with Cons show ?thesis by (simp add: joinWith_Cons splitOn_append_sep)
  qed
qed

lemma normalSegs_segments:
  "normalSegs ss \<Longrightarrow> s \<in> set ss \<Longrightarrow> s \<noteq> [] \<and> s \<noteq> ''.'' \<and> CHR ''/'' \<notin> set s"
  by (induction rule: normalSegs.induct) (auto simp: plainSeg_def)

lemma normalSegs_butlast: "normalSegs ss \<Longrightarrow> normalSegs (butlast ss)"
  by (induction rule: normalSegs.induct) (auto intro: normalSegs.nil)

lemma normalSegs_take: "normalSegs ss \<Longrightarrow> normalSegs (take k ss)"
proof (induction arbitrary: k rule: normalSegs.induct)
  case nil
  then show ?case by (simp add: normalSegs.nil)
next
  case (plain ss x)
  then show ?case by (cases "k \<le> length ss") (auto intro: normalSegs.plain)
next
  case (up ss)
  then show ?case by (cases "k \<le> length ss") (auto intro: normalSegs.up)
qed

lemma normalSegs_last_up:
  "normalSegs ss \<Longrightarrow> ss \<noteq> [] \<Longrightarrow> last ss = ''..'' \<Longrightarrow> list_all (\<lambda>s. s = ''..'') ss"
  by (induction rule: normalSegs.induct) (auto simp: plainSeg_def)

lemma normalizeStep_normal:
  assumes "normalSegs res" and "CHR ''/'' \<notin> set seg"
  shows "normalSegs (normalizeStep True seg res)"
proof -
  consider (skip) "seg = [] \<or> seg = ''.''"
    | (pop) "seg = ''..''" "res \<noteq> []" "last res \<noteq> ''..''"
    | (push_up) "seg = ''..''" "res = [] \<or> last res = ''..''"
    | (push) "plainSeg seg"
    using assms(2) by (auto simp: plainSeg_def)
  then show ?thesis
  proof cases
    case skip
    with assms show ?thesis by (auto simp: normalizeStep_def)
  next
    case pop
    with assms show ?thesis by (auto simp: normalizeStep_def normalSegs_butlast)
  next
    case push_up
    then have "list_all (\<lambda>s. s = ''..'') res"
      using assms(1) normalSegs_last_up by (cases "res = []") auto
    with push_up assms show ?thesis
      by (auto simp: normalizeStep_def intro: normalSegs.up)
  next
    case push
    with assms show ?thesis
      by (auto simp: normalizeStep_def plainSeg_def intro: normalSegs.plain)
  qed
qed

lemma fold_normalizeStep_normal:
  "normalSegs res \<Longrightarrow> \<forall>s \<in> set segs. CHR ''/'' \<notin> set s \<Longrightarrow>
   normalSegs (fold (normalizeStep True) segs res)"
  by (induction segs arbitrary: res) (auto simp: normalizeStep_normal)

lemma fold_normalizeStep_id:
  "normalSegs ss \<Longrightarrow> fold (normalizeStep True) ss [] = ss"
proof (induction rule: normalSegs.induct)
  case nil
  show ?case by simp
next
  case (plain ss x)
  then show ?case by (auto simp: normalizeStep_def plainSeg_def)
next
  case (up ss)
  then have "ss = [] \<or> last ss = ''..''"
    by (cases ss rule: rev_cases) auto
  with up show ?case by (auto simp: normalizeStep_def)
qed

lemma joinWith_nonempty:
  "segs \<noteq> [] \<Longrightarrow> \<forall>s \<in> set segs. s \<noteq> [] \<Longrightarrow>
   joinWith sep segs \<noteq> [] \<and> hd (joinWith sep segs) = hd (hd segs) \<and>
   last (joinWith sep segs) = last (last segs)"
proof (induction segs)
  case Nil
  then show ?case by simp
next
  case (Cons x xs)
  show ?case
  proof (cases "xs = []")
    case True
    with Cons.prems show ?thesis by simp
  next
    case False
    with Cons show ?thesis by (simp add: joinWith_Cons)
  qed
qed

lemma joinWith_snoc:
  "ss \<noteq> [] \<Longrightarrow> joinWith sep (ss @ [b]) = joinWith sep ss @ sep @ b"
proof (induction ss)
  case Nil
  then show ?case by simp
next
  case (Cons x xs)
  then show ?case by (cases "xs = []") (simp_all add: joinWith_Cons)
qed

text \<open>Normalising the join of non-empty, slash-free segments.\<close>

lemma normalize_join:
  assumes "ne \<noteq> []" and "\<forall>s \<in> set ne. s \<noteq> [] \<and> CHR ''/'' \<notin> set s"
  shows "normalize (joinWith ''/'' ne) =
     (if fold (normalizeStep True) ne [] = [] then ''.''
      else joinWith ''/'' (fold (normalizeStep True) ne []))"
proof -
  let ?j = "joinWith ''/'' ne"
  have j: "?j \<noteq> []" "hd ?j = hd (hd ne)" "last ?j = last (last ne)"
    using joinWith_nonempty [of ne "''/''"] assms by auto
  have "hd ne \<in> set ne" "last ne \<in> set ne" using assms(1) by auto
  then have "hd (hd ne) \<in> set (hd ne)" "last (last ne) \<in> set (last ne)"
    using assms(2) by auto
  then have rel: "hd ?j \<noteq> CHR ''/''" "last ?j \<noteq> CHR ''/''"
    using assms(2) j \<open>hd ne \<in> set ne\<close> \<open>last ne \<in> set ne\<close> by metis+
  have split: "splitOn (CHR ''/'') ?j = ne"
    using splitOn_joinWith [of ne "CHR ''/''"] assms by simp
  have res: "fold (normalizeStep True) ne [] \<noteq> [] \<Longrightarrow>
      joinWith ''/'' (fold (normalizeStep True) ne []) \<noteq> []"
  proof -
    assume ne': "fold (normalizeStep True) ne [] \<noteq> []"
    have "normalSegs (fold (normalizeStep True) ne [])"
      using fold_normalizeStep_normal [of "[]" ne] assms(2) by (simp add: normalSegs.nil)
    then have "\<forall>s \<in> set (fold (normalizeStep True) ne []). s \<noteq> []"
      using normalSegs_segments by blast
    with ne' show ?thesis using joinWith_nonempty by blast
  qed
  show ?thesis
    using j(1) rel split res
    by (auto simp: normalize_def normalizeString_def Let_def)
qed

lemma pathJoin_slash_free:
  assumes "\<forall>a \<in> set args. CHR ''/'' \<notin> set a"
  shows "pathJoin args =
     (if fold (normalizeStep True) (filter (\<lambda>arg. arg \<noteq> []) args) [] = [] then ''.''
      else joinWith ''/'' (fold (normalizeStep True) (filter (\<lambda>arg. arg \<noteq> []) args) []))"
proof (cases "filter (\<lambda>arg. arg \<noteq> []) args = []")
  case True
  then show ?thesis by (simp add: pathJoin_def)
next
  case False
  have "\<forall>s \<in> set (filter (\<lambda>arg. arg \<noteq> []) args). s \<noteq> [] \<and> CHR ''/'' \<notin> set s"
    using assms by auto
  from normalize_join [OF False this] False show ?thesis by (simp add: pathJoin_def)
qed

lemma pathJoin_plain:
  assumes "segs \<noteq> []" and "\<forall>s \<in> set segs. plainSeg s"
  shows "pathJoin segs = joinWith ''/'' segs"
proof -
  have n: "normalSegs segs" using assms(2)
  proof (induction segs rule: rev_induct)
    case Nil
    show ?case by (rule normalSegs.nil)
  next
    case (snoc x xs)
    then show ?case by (auto intro: normalSegs.plain)
  qed
  have f: "filter (\<lambda>arg. arg \<noteq> []) segs = segs"
    using assms(2) by (auto simp: plainSeg_def filter_id_conv)
  have "\<forall>a \<in> set segs. CHR ''/'' \<notin> set a" using assms(2) by (auto simp: plainSeg_def)
  from pathJoin_slash_free [OF this] show ?thesis
    using assms(1) by (simp add: f fold_normalizeStep_id [OF n])
qed

lemma pathJoin_extend:
  assumes "normalSegs (ss @ [b])" and "ss \<noteq> []"
  shows "pathJoin [joinWith ''/'' ss, b] = joinWith ''/'' (ss @ [b])"
proof -
  have segs: "\<forall>s \<in> set (ss @ [b]). s \<noteq> [] \<and> CHR ''/'' \<notin> set s"
    using normalSegs_segments [OF assms(1)] by blast
  then have "joinWith ''/'' ss \<noteq> []" "b \<noteq> []"
    using joinWith_nonempty [of ss "''/''"] assms(2) by auto
  then have "pathJoin [joinWith ''/'' ss, b] = normalize (joinWith ''/'' ss @ ''/'' @ b)"
    by (simp add: pathJoin_def)
  also have "\<dots> = normalize (joinWith ''/'' (ss @ [b]))"
    using assms(2) by (simp add: joinWith_snoc)
  also have "\<dots> = joinWith ''/'' (ss @ [b])"
    using normalize_join [of "ss @ [b]"] segs fold_normalizeStep_id [OF assms(1)] by simp
  finally show ?thesis .
qed

text \<open>The shape of a computed directory: its segments.\<close>

lemma getDirectoryPath_shape:
  assumes "getDirectoryPath p = Some d"
  shows "d = ''.'' \<or> (\<exists>T. T \<noteq> [] \<and> normalSegs T \<and> d = joinWith ''/'' T)"
proof (cases "''node_modules'' \<in> set (splitOn (CHR ''/'') p)")
  case True
  have "normalSegs ([] @ [''node_modules''])"
    by (rule normalSegs.plain) (simp_all add: normalSegs.nil plainSeg_def)
  then have n: "normalSegs [''node_modules'']" by simp
  have "getDirectoryPath p = Some ''node_modules''"
    using True by (simp add: getDirectoryPath_def)
  with assms have "d = joinWith ''/'' [''node_modules'']" by simp
  with n have "[''node_modules''] \<noteq> [] \<and> normalSegs [''node_modules''] \<and>
      d = joinWith ''/'' [''node_modules'']" by simp
  then show ?thesis by blast
next
  case False
  define args where "args = take (length (splitOn (CHR ''/'') p) - 1) (splitOn (CHR ''/'') p)"
  define res where "res = fold (normalizeStep True) (filter (\<lambda>arg. arg \<noteq> []) args) []"
  have "getDirectoryPath p =
      (if length (splitOn (CHR ''/'') p) = 1 then None else Some (pathJoin args))"
    using False by (simp add: getDirectoryPath_def Let_def args_def)
  with assms have d: "d = pathJoin args"
    by (simp split: if_splits)
  have free: "\<forall>a \<in> set args. CHR ''/'' \<notin> set a"
    unfolding args_def using splitOn_no_sep in_set_takeD by metis
  have n: "normalSegs res"
    unfolding res_def
    by (rule fold_normalizeStep_normal) (use free in \<open>simp_all add: normalSegs.nil\<close>)
  have "d = (if res = [] then ''.'' else joinWith ''/'' res)"
    unfolding d res_def by (rule pathJoin_slash_free [OF free])
  then show ?thesis
  proof (cases "res = []")
    case True
    with \<open>d = (if res = [] then ''.'' else joinWith ''/'' res)\<close> show ?thesis by simp
  next
    case False
    with \<open>d = (if res = [] then ''.'' else joinWith ''/'' res)\<close> n
    have "res \<noteq> [] \<and> normalSegs res \<and> d = joinWith ''/'' res" by simp
    then show ?thesis by blast
  qed
qed

lemma getDirectoryPath_nonempty: "getDirectoryPath p = Some d \<Longrightarrow> d \<noteq> []"
proof -
  assume "getDirectoryPath p = Some d"
  from getDirectoryPath_shape [OF this] show ?thesis
  proof
    assume "d = ''.''" then show ?thesis by simp
  next
    assume "\<exists>T. T \<noteq> [] \<and> normalSegs T \<and> d = joinWith ''/'' T"
    then obtain T where T: "T \<noteq> []" "normalSegs T" "d = joinWith ''/'' T" by blast
    then have "\<forall>s \<in> set T. s \<noteq> []" using normalSegs_segments by blast
    with T show ?thesis using joinWith_nonempty [of T "''/''"] by simp
  qed
qed


text \<open>
  Claim C5 (as amended). A path with a segment \<open>node_modules\<close> has the directory
  \<open>node_modules\<close>; otherwise a path of one segment has no directory; otherwise the
  directory is \<open>path.join\<close> of all segments but the last, which drops empty and
  \<open>.\<close> segments and resolves \<open>..\<close>. When all segments but the last are plain,
  this is those segments joined with the separator.
\<close>

theorem getDirectoryPath_cases:
  "(''node_modules'' \<in> set (splitOn (CHR ''/'') p) \<longrightarrow>
      getDirectoryPath p = Some ''node_modules'') \<and>
   (''node_modules'' \<notin> set (splitOn (CHR ''/'') p) \<and> length (splitOn (CHR ''/'') p) = 1 \<longrightarrow>
      getDirectoryPath p = None) \<and>
   (''node_modules'' \<notin> set (splitOn (CHR ''/'') p) \<and> length (splitOn (CHR ''/'') p) \<noteq> 1 \<longrightarrow>
      getDirectoryPath p = Some (pathJoin (butlast (splitOn (CHR ''/'') p)))) \<and>
   (''node_modules'' \<notin> set (splitOn (CHR ''/'') p) \<and> length (splitOn (CHR ''/'') p) \<noteq> 1 \<and>
    list_all plainSeg (butlast (splitOn (CHR ''/'') p)) \<longrightarrow>
      getDirectoryPath p = Some (joinWith ''/'' (butlast (splitOn (CHR ''/'') p))))"
proof (intro conjI impI)
  assume "''node_modules'' \<in> set (splitOn (CHR ''/'') p)"
  then show "getDirectoryPath p = Some ''node_modules''"
    by (simp add: getDirectoryPath_def)
next
  assume "''node_modules'' \<notin> set (splitOn (CHR ''/'') p) \<and> length (splitOn (CHR ''/'') p) = 1"
  then show "getDirectoryPath p = None"
    by (simp add: getDirectoryPath_def)
next
  assume "''node_modules'' \<notin> set (splitOn (CHR ''/'') p) \<and> length (splitOn (CHR ''/'') p) \<noteq> 1"
  then show "getDirectoryPath p = Some (pathJoin (butlast (splitOn (CHR ''/'') p)))"
    by (simp add: getDirectoryPath_def butlast_conv_take Let_def)
next
  assume h: "''node_modules'' \<notin> set (splitOn (CHR ''/'') p) \<and>
    length (splitOn (CHR ''/'') p) \<noteq> 1 \<and> list_all plainSeg (butlast (splitOn (CHR ''/'') p))"
  have "splitOn (CHR ''/'') p \<noteq> []" by (rule splitOn_nonempty)
  with h have ne: "butlast (splitOn (CHR ''/'') p) \<noteq> []"
    by (cases "splitOn (CHR ''/'') p" rule: rev_cases) auto
  have "pathJoin (butlast (splitOn (CHR ''/'') p)) = joinWith ''/'' (butlast (splitOn (CHR ''/'') p))"
    using pathJoin_plain [OF ne] h by (simp add: list_all_iff)
  with h show "getDirectoryPath p = Some (joinWith ''/'' (butlast (splitOn (CHR ''/'') p)))"
    by (simp add: getDirectoryPath_def butlast_conv_take Let_def)
qed

lemmas eval_path = getDirectoryPath_def pathJoin_def normalize_def normalizeString_def
  normalizeStep_def consHead_def Let_def

text \<open>
  For the absolute path \<open>/src/x.ts\<close> the segments but the last are the empty
  segment and \<open>src\<close>; joined with the separator they give \<open>/src\<close>, while the
  computed directory is \<open>src\<close>.
\<close>

theorem getDirectoryPath_cases_counterexample:
  "''node_modules'' \<notin> set (splitOn (CHR ''/'') ''/src/x.ts'') \<and>
   length (splitOn (CHR ''/'') ''/src/x.ts'') \<noteq> 1 \<and>
   joinWith ''/'' (butlast (splitOn (CHR ''/'') ''/src/x.ts'')) = ''/src'' \<and>
   getDirectoryPath ''/src/x.ts'' = Some ''src'' \<and>
   getDirectoryPath ''/src/x.ts'' \<noteq>
     Some (joinWith ''/'' (butlast (splitOn (CHR ''/'') ''/src/x.ts'')))"
  by (simp add: eval_path)

theorem getDirectoryPath_cases_witness:
  "''node_modules'' \<in> set (splitOn (CHR ''/'') ''node_modules/react/index'') \<and>
   getDirectoryPath ''node_modules/react/index'' = Some ''node_modules'' \<and>
   ''node_modules'' \<in> set (splitOn (CHR ''/'') ''node_modules/lodash/get'') \<and>
   getDirectoryPath ''node_modules/lodash/get'' = Some ''node_modules'' \<and>
   ''node_modules'' \<notin> set (splitOn (CHR ''/'') ''index.ts'') \<and>
   length (splitOn (CHR ''/'') ''index.ts'') = 1 \<and>
   getDirectoryPath ''index.ts'' = None \<and>
   ''node_modules'' \<notin> set (splitOn (CHR ''/'') ''src/app/main.ts'') \<and>
   length (splitOn (CHR ''/'') ''src/app/main.ts'') \<noteq> 1 \<and>
   list_all plainSeg (butlast (splitOn (CHR ''/'') ''src/app/main.ts'')) \<and>
   getDirectoryPath ''src/app/main.ts'' = Some ''src/app''"
proof -
  have a: "''node_modules'' \<in> set (splitOn (CHR ''/'') ''node_modules/react/index'')"
    and b: "''node_modules'' \<in> set (splitOn (CHR ''/'') ''node_modules/lodash/get'')"
    and c: "''node_modules'' \<notin> set (splitOn (CHR ''/'') ''index.ts'') \<and>
       length (splitOn (CHR ''/'') ''index.ts'') = 1"
    and d: "''node_modules'' \<notin> set (splitOn (CHR ''/'') ''src/app/main.ts'') \<and>
       length (splitOn (CHR ''/'') ''src/app/main.ts'') \<noteq> 1 \<and>
       list_all plainSeg (butlast (splitOn (CHR ''/'') ''src/app/main.ts''))"
    by (simp_all add: consHead_def plainSeg_def)
  have j: "joinWith ''/'' (butlast (splitOn (CHR ''/'') ''src/app/main.ts'')) = ''src/app''"
    by (simp add: consHead_def)
  have 1: "getDirectoryPath ''node_modules/react/index'' = Some ''node_modules''"
    using getDirectoryPath_cases [of "''node_modules/react/index''"] a by blast
  have 2: "getDirectoryPath ''node_modules/lodash/get'' = Some ''node_modules''"
    using getDirectoryPath_cases [of "''node_modules/lodash/get''"] b by blast
  have 3: "getDirectoryPath ''index.ts'' = None"
    using getDirectoryPath_cases [of "''index.ts''"] c by blast
  have "getDirectoryPath ''src/app/main.ts'' =
      Some (joinWith ''/'' (butlast (splitOn (CHR ''/'') ''src/app/main.ts'')))"
    using getDirectoryPath_cases [of "''src/app/main.ts''"] d by blast
  then have 4: "getDirectoryPath ''src/app/main.ts'' = Some ''src/app''"
    by (simp only: j)
  from a b c d 1 2 3 4 show ?thesis by blast
qed

section \<open>Properties of the identifier sanitizer\<close>






text \<open>
  Claim C6. The sanitizer is meant to split on every reserved character, but its
  pattern holds the two-character alternative bar-tilde where a bar and a tilde were
  meant as separate alternatives: a path containing a bar or a tilde alone is returned
  with that reserved character still in it.
\<close>

theorem sanitizer_keeps_bar_and_tilde:
  "fileNameToMermaidId ''a|b'' = ''a|b'' \<and> fileNameToMermaidId ''a~b'' = ''a~b'' \<and>
   CHR ''|'' \<in> set reservedChars \<and> CHR ''~'' \<in> set reservedChars \<and>
   fileNameToMermaidId ''a|~b'' = ''a//b''"
  by (simp add: fileNameToMermaidId_def singleSeparators_def consHead_def reservedChars_def)

text \<open>
  The parts of the claim the code does satisfy: the path \<open>a-b@c[d]\<close> is split at its
  four reserved characters and rejoined with two slashes, and no character of the
  result is reserved.
\<close>

lemma sanitizer_example:
  "fileNameToMermaidId ''a-b@c[d]'' = ''a//b//c//d//'' \<and>
   set (fileNameToMermaidId ''a-b@c[d]'') \<inter> set reservedChars = {}"
  by (simp add: fileNameToMermaidId_def singleSeparators_def consHead_def reservedChars_def)




















section \<open>Properties of the directory entries\<close>

lemma pushAncestor_extend:
  assumes "normalSegs (A @ [b])" and "A \<noteq> []" and "acc \<noteq> []"
    and "last acc = joinWith ''/'' A"
  shows "pushAncestor b acc = acc @ [joinWith ''/'' (A @ [b])]"
proof -
  have "\<forall>s \<in> set A. s \<noteq> []"
    using normalSegs_segments [OF assms(1)] by simp
  then have "joinWith ''/'' A \<noteq> []"
    using joinWith_nonempty [of A "''/''"] assms(2) by simp
  then show ?thesis
    using assms(3,4) pathJoin_extend [OF assms(1,2)] by (simp add: pushAncestor_def)
qed

lemma fold_pushAncestor:
  assumes "normalSegs (A @ B)" and "A \<noteq> []" and "acc \<noteq> []"
    and "last acc = joinWith ''/'' A"
  shows "fold pushAncestor B acc =
     acc @ map (\<lambda>k. joinWith ''/'' (take k (A @ B))) [Suc (length A)..<Suc (length (A @ B))]"
  using assms
proof (induction B arbitrary: A acc)
  case Nil
  then show ?case by simp
next
  case (Cons b bs)
  have n1: "normalSegs (A @ [b])"
    using normalSegs_take [OF Cons.prems(1), of "Suc (length A)"] by simp
  have step: "pushAncestor b acc = acc @ [joinWith ''/'' (A @ [b])]"
    using pushAncestor_extend [OF n1 Cons.prems(2,3,4)] .
  have ih: "fold pushAncestor bs (acc @ [joinWith ''/'' (A @ [b])]) =
      (acc @ [joinWith ''/'' (A @ [b])]) @
      map (\<lambda>k. joinWith ''/'' (take k ((A @ [b]) @ bs)))
        [Suc (length (A @ [b]))..<Suc (length ((A @ [b]) @ bs))]"
    by (rule Cons.IH) (use Cons.prems in simp_all)
  have upt: "[Suc (length A)..<Suc (length (A @ b # bs))] =
      Suc (length A) # [Suc (Suc (length A))..<Suc (length (A @ b # bs))]"
    by (simp add: upt_conv_Cons del: upt_Suc)
  have tk: "take (Suc (length A)) (A @ b # bs) = A @ [b]" by simp
  show ?case
    using ih by (simp only: fold_Cons comp_apply step upt list.map tk) (simp del: upt_Suc)
qed

lemma ancestors_prefixes:
  assumes "H \<noteq> []" and "length H = 1 \<or> normalSegs H"
  shows "fold pushAncestor H [] =
     map (\<lambda>k. joinWith ''/'' (take k H)) [1..<Suc (length H)]"
proof -
  from assms(1) obtain h B where H: "H = h # B" by (cases H) auto
  show ?thesis
  proof (cases "B = []")
    case True
    with H show ?thesis by (simp add: pushAncestor_def)
  next
    case False
    with assms(2) H have n: "normalSegs ([h] @ B)" by simp
    have "fold pushAncestor B [h] =
       [h] @ map (\<lambda>k. joinWith ''/'' (take k ([h] @ B))) [Suc (length [h])..<Suc (length ([h] @ B))]"
      by (rule fold_pushAncestor [OF n]) simp_all
    moreover have "[1..<Suc (length (h # B))] = 1 # [Suc (length [h])..<Suc (length ([h] @ B))]"
      by (simp add: upt_conv_Cons del: upt_Suc)
    ultimately show ?thesis
      unfolding H by (simp add: pushAncestor_def del: upt_Suc)
  qed
qed

lemma goodSegs_split_join:
  "goodSegs H \<Longrightarrow> 1 \<le> k \<Longrightarrow> splitOn (CHR ''/'') (joinWith ''/'' (take k H)) = take k H"
proof -
  assume g: "goodSegs H" and k: "1 \<le> k"
  then have "take k H \<noteq> []" by (cases H) (auto simp: goodSegs_def take_Cons')
  moreover have "\<forall>f \<in> set (take k H). CHR ''/'' \<notin> set f"
    using g in_set_takeD [of _ k H] by (auto simp: goodSegs_def)
  ultimately show ?thesis
    using splitOn_joinWith [of "take k H" "CHR ''/''"] by simp
qed

lemma directory_hierarchy:
  assumes "getDirectoryPath p = Some d"
  shows "goodSegs (splitOn (CHR ''/'') d) \<and>
     (length (splitOn (CHR ''/'') d) = 1 \<or> normalSegs (splitOn (CHR ''/'') d))"
proof -
  from getDirectoryPath_shape [OF assms] show ?thesis
  proof
    assume "d = ''.''"
    then show ?thesis by (simp add: goodSegs_def consHead_def)
  next
    assume "\<exists>T. T \<noteq> [] \<and> normalSegs T \<and> d = joinWith ''/'' T"
    then obtain T where T: "T \<noteq> []" "normalSegs T" "d = joinWith ''/'' T" by blast
    have segs: "\<forall>s \<in> set T. s \<noteq> [] \<and> CHR ''/'' \<notin> set s"
      using normalSegs_segments [OF T(2)] by blast
    then have "splitOn (CHR ''/'') d = T"
      using splitOn_joinWith [of T "CHR ''/''"] T(1,3) by simp
    with T segs show ?thesis by (simp add: goodSegs_def)
  qed
qed

lemma pushDir_set:
  "set (pushDir current pre) = set pre \<union> {c. current = Some c \<and> c \<noteq> []}"
  by (auto simp: pushDir_def list_ex_iff split: option.splits)

lemma pushDir_distinct: "distinct pre \<Longrightarrow> distinct (pushDir current pre)"
  by (auto simp: pushDir_def list_ex_iff split: option.splits)

lemma fold_pushDir_set:
  "set (fold pushDir xs acc) = set acc \<union> {c. Some c \<in> set xs \<and> c \<noteq> []}"
  by (induction xs arbitrary: acc) (auto simp: pushDir_set)

lemma fold_pushDir_distinct: "distinct acc \<Longrightarrow> distinct (fold pushDir xs acc)"
  by (induction xs arbitrary: acc) (auto simp: pushDir_distinct)

lemma allDir_distinct: "distinct (allDir g)"
  by (simp add: allDir_def fold_pushDir_distinct)

lemma ancestorDirs_iff:
  assumes "getDirectoryPath p = Some d"
  shows "Some c \<in> set (ancestorDirs (getDirectoryPath p)) \<longleftrightarrow>
     (\<exists>k. 1 \<le> k \<and> k \<le> length (splitOn (CHR ''/'') d) \<and>
          c = joinWith ''/'' (take k (splitOn (CHR ''/'') d)))"
proof -
  let ?H = "splitOn (CHR ''/'') d"
  have d: "d \<noteq> []" using getDirectoryPath_nonempty [OF assms] .
  have h: "?H \<noteq> []" "length ?H = 1 \<or> normalSegs ?H"
    using directory_hierarchy [OF assms] by (auto simp: goodSegs_def)
  have "Some c \<in> set (ancestorDirs (getDirectoryPath p)) \<longleftrightarrow>
      c \<in> set (map (\<lambda>k. joinWith ''/'' (take k ?H)) [1..<Suc (length ?H)])"
    using d by (simp add: assms ancestorDirs_def ancestors_prefixes [OF h] image_iff)
  also have "\<dots> \<longleftrightarrow> (\<exists>k. 1 \<le> k \<and> k \<le> length ?H \<and> c = joinWith ''/'' (take k ?H))"
    by (auto simp: image_iff)
  finally show ?thesis .
qed

lemma ancestorDirs_None: "Some c \<notin> set (ancestorDirs None)"
  by (simp add: ancestorDirs_def)

lemma allDir_iff:
  "c \<in> set (allDir g) \<longleftrightarrow>
     (\<exists>n \<in> set (nodes g). \<exists>d k. getDirectoryPath (path n) = Some d \<and>
        1 \<le> k \<and> k \<le> length (splitOn (CHR ''/'') d) \<and>
        c = joinWith ''/'' (take k (splitOn (CHR ''/'') d)))"
proof
  assume "c \<in> set (allDir g)"
  then obtain n where n: "n \<in> set (nodes g)"
      "Some c \<in> set (ancestorDirs (getDirectoryPath (path n)))"
    by (auto simp: allDir_def fold_pushDir_set)
  then obtain d where d: "getDirectoryPath (path n) = Some d"
    using ancestorDirs_None by (cases "getDirectoryPath (path n)") auto
  from ancestorDirs_iff [OF d, of c] n d show
    "\<exists>n \<in> set (nodes g). \<exists>d k. getDirectoryPath (path n) = Some d \<and>
        1 \<le> k \<and> k \<le> length (splitOn (CHR ''/'') d) \<and>
        c = joinWith ''/'' (take k (splitOn (CHR ''/'') d))"
    by blast
next
  assume "\<exists>n \<in> set (nodes g). \<exists>d k. getDirectoryPath (path n) = Some d \<and>
        1 \<le> k \<and> k \<le> length (splitOn (CHR ''/'') d) \<and>
        c = joinWith ''/'' (take k (splitOn (CHR ''/'') d))"
  then obtain n d k where n: "n \<in> set (nodes g)" and d: "getDirectoryPath (path n) = Some d"
    and k: "1 \<le> k" "k \<le> length (splitOn (CHR ''/'') d)"
    and c: "c = joinWith ''/'' (take k (splitOn (CHR ''/'') d))"
    by blast
  have mem: "Some c \<in> set (ancestorDirs (getDirectoryPath (path n)))"
    using ancestorDirs_iff [OF d, of c] k c by blast
  have g: "goodSegs (splitOn (CHR ''/'') d)" using directory_hierarchy [OF d] by simp
  have "splitOn (CHR ''/'') c = take k (splitOn (CHR ''/'') d)"
    unfolding c by (rule goodSegs_split_join [OF g k(1)])
  moreover have "\<forall>s \<in> set (take k (splitOn (CHR ''/'') d)). s \<noteq> []"
    using g in_set_takeD [of _ k "splitOn (CHR ''/'') d"] by (auto simp: goodSegs_def)
  ultimately have "c \<noteq> []"
    by (metis list.set_intros(1) splitOn.simps(1))
  with n mem show "c \<in> set (allDir g)"
    by (auto simp: allDir_def fold_pushDir_set)
qed

lemma dirAndNodes_entry:
  "e \<in> set (dirAndNodes g) \<longleftrightarrow>
     entryDir e \<in> set (allDir g) \<and>
     e = \<lparr> entryDir = entryDir e, dirHierarchy = splitOn (CHR ''/'') (entryDir e),
           entryNodes = filter (\<lambda>node. getDirectoryPath (path node) = Some (entryDir e)) (nodes g) \<rparr>"
  by (auto simp: dirAndNodes_def)

lemma dirAndNodes_dirs: "map entryDir (dirAndNodes g) = allDir g"
  by (simp add: dirAndNodes_def comp_def)

lemma dirAndNodes_hierarchy:
  "e \<in> set (dirAndNodes g) \<Longrightarrow> dirHierarchy e = splitOn (CHR ''/'') (entryDir e)"
  by (auto simp: dirAndNodes_def)

lemma dirAndNodes_nodes:
  "e \<in> set (dirAndNodes g) \<Longrightarrow>
   entryNodes e = filter (\<lambda>node. getDirectoryPath (path node) = Some (entryDir e)) (nodes g)"
  by (auto simp: dirAndNodes_def)

lemma dirAndNodes_lookup:
  assumes "c \<in> set (allDir g)"
  shows "\<exists>e \<in> set (dirAndNodes g). entryDir e = c"
proof -
  from assms have "c \<in> set (map entryDir (dirAndNodes g))" by (simp add: dirAndNodes_dirs)
  then show ?thesis by auto
qed

lemma dirAndNodes_wellFormed: "wellFormedDirs (dirAndNodes g)"
  unfolding wellFormedDirs_def
proof (intro conjI ballI allI impI)
  show "distinct (map entryDir (dirAndNodes g))"
    by (simp add: dirAndNodes_dirs allDir_distinct)
next
  fix e assume "e \<in> set (dirAndNodes g)"
  then show "dirHierarchy e = splitOn (CHR ''/'') (entryDir e)"
    by (rule dirAndNodes_hierarchy)
next
  fix e j
  assume e: "e \<in> set (dirAndNodes g)" and j: "1 \<le> j \<and> j \<le> length (dirHierarchy e)"
  have he: "dirHierarchy e = splitOn (CHR ''/'') (entryDir e)"
    using e by (rule dirAndNodes_hierarchy)
  have "entryDir e \<in> set (allDir g)" using e by (simp add: dirAndNodes_entry)
  then obtain n d k where d: "getDirectoryPath (path n) = Some d" and n: "n \<in> set (nodes g)"
    and k: "1 \<le> k" "k \<le> length (splitOn (CHR ''/'') d)"
    and c: "entryDir e = joinWith ''/'' (take k (splitOn (CHR ''/'') d))"
    unfolding allDir_iff by blast
  let ?H = "splitOn (CHR ''/'') d"
  have g: "goodSegs ?H" using directory_hierarchy [OF d] by simp
  have hk: "dirHierarchy e = take k ?H"
    unfolding he c by (rule goodSegs_split_join [OF g k(1)])
  from j hk k have jk: "j \<le> k" by simp
  then have tj: "take j (dirHierarchy e) = take j ?H"
    unfolding hk by (simp add: min_def)
  have "joinWith ''/'' (take j ?H) \<in> set (allDir g)"
    unfolding allDir_iff using n d j jk k by (intro bexI [of _ n] exI [of _ d] exI [of _ j]) auto
  then obtain a where a: "a \<in> set (dirAndNodes g)"
      "entryDir a = joinWith ''/'' (take j ?H)"
    using dirAndNodes_lookup by blast
  have "dirHierarchy a = take j ?H"
    using dirAndNodes_hierarchy [OF a(1)] goodSegs_split_join [OF g, of j] j a(2) by simp
  with a(1) tj show "\<exists>a \<in> set (dirAndNodes g). dirHierarchy a = take j (dirHierarchy e)"
    by auto
qed

lemma dirAndNodes_covers:
  assumes "n \<in> set (nodes g)" and "getDirectoryPath (path n) = Some d"
  shows "\<exists>e \<in> set (dirAndNodes g). entryDir e = d \<and> n \<in> set (entryNodes e)"
proof -
  let ?H = "splitOn (CHR ''/'') d"
  have g: "goodSegs ?H" using directory_hierarchy [OF assms(2)] by simp
  have "joinWith ''/'' (take (length ?H) ?H) = d"
    using joinWith_splitOn [of "CHR ''/''" d] by simp
  moreover have "1 \<le> length ?H" using g by (cases ?H) (auto simp: goodSegs_def)
  ultimately have "d \<in> set (allDir g)"
    unfolding allDir_iff using assms
    by (intro bexI [of _ n] exI [of _ d] exI [of _ "length ?H"]) auto
  then obtain e where e: "e \<in> set (dirAndNodes g)" "entryDir e = d"
    using dirAndNodes_lookup by blast
  then have "n \<in> set (entryNodes e)"
    using dirAndNodes_nodes [OF e(1)] assms by simp
  with e show ?thesis by blast
qed

text \<open>The child test.\<close>

lemma isChild_iff: "isChild p c \<longleftrightarrow> c \<noteq> [] \<and> p = butlast c"
proof (cases "length p + 1 = length c")
  case True
  then have c: "c \<noteq> []" by auto
  have "list_all (\<lambda>i. p ! i = c ! i) [0..<length p] \<longleftrightarrow> p = butlast c"
  proof
    assume "list_all (\<lambda>i. p ! i = c ! i) [0..<length p]"
    then have "\<forall>i < length p. p ! i = butlast c ! i"
      using True by (auto simp: list_all_iff nth_butlast)
    then show "p = butlast c"
      using True by (intro nth_equalityI) auto
  next
    assume "p = butlast c"
    then show "list_all (\<lambda>i. p ! i = c ! i) [0..<length p]"
      by (auto simp: list_all_iff nth_butlast)
  qed
  with True c show ?thesis by (auto simp: isChild_def)
next
  case False
  then have "\<not> (c \<noteq> [] \<and> p = butlast c)" by (cases c rule: rev_cases) auto
  with False show ?thesis by (auto simp: isChild_def)
qed

section \<open>Properties of the tree recursion\<close>

lemma wellFormedDirs_distinct: "wellFormedDirs ds \<Longrightarrow> distinct ds"
  by (auto simp: wellFormedDirs_def distinct_map)

lemma wellFormedDirs_inj:
  assumes "wellFormedDirs ds" and "a \<in> set ds" and "b \<in> set ds"
    and "dirHierarchy a = dirHierarchy b"
  shows "a = b"
proof -
  have "entryDir a = joinWith ''/'' (dirHierarchy a)" "entryDir b = joinWith ''/'' (dirHierarchy b)"
    using assms(1,2,3) joinWith_splitOn [of "CHR ''/''"] by (auto simp: wellFormedDirs_def)
  with assms(4) have "entryDir a = entryDir b" by simp
  moreover have "inj_on entryDir (set ds)"
    using assms(1) by (auto simp: wellFormedDirs_def distinct_map)
  ultimately show ?thesis using assms(2,3) by (auto dest: inj_onD)
qed

lemma wellFormedDirs_hierarchy_nonempty:
  "wellFormedDirs ds \<Longrightarrow> e \<in> set ds \<Longrightarrow> dirHierarchy e \<noteq> []"
  using splitOn_nonempty by (auto simp: wellFormedDirs_def)

lemma wellFormedDirs_prefix:
  assumes "wellFormedDirs ds" and "e \<in> set ds" and "1 \<le> j" and "j \<le> length (dirHierarchy e)"
  shows "\<exists>a \<in> set ds. dirHierarchy a = take j (dirHierarchy e)"
  using assms unfolding wellFormedDirs_def by blast

lemma forestNodes_Nil: "forestNodes [] = []"
  by (simp add: forestNodes_def)

lemma forestNodes_Cons: "forestNodes (t # ts) = allTreeNodes t @ forestNodes ts"
  by (simp add: forestNodes_def)

lemma forestNodes_append: "forestNodes (ts @ us) = forestNodes ts @ forestNodes us"
  by (simp add: forestNodes_def)

lemma forestNodes_concat: "forestNodes (concat tss) = concat (map forestNodes tss)"
  by (induction tss) (simp_all add: forestNodes_Nil forestNodes_append)

lemma allTreeNodes_forest:
  "allTreeNodes (DirAndNodesTree d ns cs) = DirAndNodesTree d ns cs # forestNodes cs"
  by (simp add: forestNodes_def)

lemma createRec_forestNodes:
  "forestNodes (createDirAndNodesRecursive ds e) =
     (if entryNodes e = [] \<and> length (childEntries ds e) \<le> 1 then []
      else [DirAndNodesTree (entryDir e) (entryNodes e)
              (concat (map (createDirAndNodesRecursive ds) (childEntries ds e)))]) @
     concat (map (\<lambda>c. forestNodes (createDirAndNodesRecursive ds c)) (childEntries ds e))"
  by (subst createDirAndNodesRecursive.simps)
     (simp add: forestNodes_concat forestNodes_Cons forestNodes_Nil allTreeNodes_forest comp_def
        del: allTreeNodes.simps)

lemma length_filter_concat:
  "length (filter P (concat xss)) = sum_list (map (\<lambda>xs. length (filter P xs)) xss)"
  by (induction xss) simp_all

lemma sum_list_indicator:
  "sum_list (map (\<lambda>c. if Q c then 1 else 0) xs) = length (filter Q xs)"
  by (induction xs) simp_all

text \<open>Children extend the hierarchy of their parent by one segment.\<close>

lemma childEntries_iff:
  "c \<in> set (childEntries ds e) \<longleftrightarrow>
     c \<in> set ds \<and> dirHierarchy c \<noteq> [] \<and> dirHierarchy e = butlast (dirHierarchy c)"
  by (auto simp: childEntries_def isChild_iff)

lemma child_prefix:
  assumes "dirHierarchy c \<noteq> []" and "dirHierarchy e = butlast (dirHierarchy c)"
    and "prefix (dirHierarchy c) hx"
  shows "prefix (dirHierarchy e) hx \<and> dirHierarchy e \<noteq> hx \<and>
     dirHierarchy c = take (Suc (length (dirHierarchy e))) hx"
proof -
  from assms(3) obtain r where r: "hx = dirHierarchy c @ r" by (auto simp: prefix_def)
  from assms(1,2) have c: "dirHierarchy c = dirHierarchy e @ [last (dirHierarchy c)]"
    by simp
  have l: "length (dirHierarchy c) = Suc (length (dirHierarchy e))"
    using assms(1,2) by (cases "dirHierarchy c" rule: rev_cases) auto
  have "prefix (dirHierarchy e) hx"
    unfolding r by (subst c) simp
  moreover have "dirHierarchy e \<noteq> hx"
    using r l by (metis length_append not_add_less1 lessI)
  moreover have "dirHierarchy c = take (Suc (length (dirHierarchy e))) hx"
    using r l by simp
  ultimately show ?thesis by blast
qed

lemma count_children:
  assumes wf: "wellFormedDirs ds" and e: "e \<in> set ds" and x: "x \<in> set ds"
  shows "length (filter (\<lambda>c. prefix (dirHierarchy c) (dirHierarchy x)) (childEntries ds e)) =
     (if prefix (dirHierarchy e) (dirHierarchy x) \<and> dirHierarchy e \<noteq> dirHierarchy x
      then 1 else 0)"
proof (cases "prefix (dirHierarchy e) (dirHierarchy x) \<and> dirHierarchy e \<noteq> dirHierarchy x")
  case False
  have "filter (\<lambda>c. prefix (dirHierarchy c) (dirHierarchy x)) (childEntries ds e) = []"
    unfolding filter_empty_conv
  proof (intro ballI notI)
    fix c assume c: "c \<in> set (childEntries ds e)"
      and p: "prefix (dirHierarchy c) (dirHierarchy x)"
    from c have "dirHierarchy c \<noteq> []" "dirHierarchy e = butlast (dirHierarchy c)"
      by (simp_all add: childEntries_iff)
    from child_prefix [OF this p] False show False by blast
  qed
  with False show ?thesis by simp
next
  case True
  let ?n = "length (dirHierarchy e)"
  from True obtain r where r: "dirHierarchy x = dirHierarchy e @ r" "r \<noteq> []"
    by (auto simp: prefix_def)
  then have len: "1 \<le> Suc ?n" "Suc ?n \<le> length (dirHierarchy x)"
    by (cases r; simp)+
  from wellFormedDirs_prefix [OF wf x len] obtain a where a: "a \<in> set ds"
    "dirHierarchy a = take (Suc ?n) (dirHierarchy x)" by blast
  have a_ne: "dirHierarchy a \<noteq> []" using a(2) r by (cases r) auto
  have a_but: "dirHierarchy e = butlast (dirHierarchy a)"
    using a(2) r by (cases r) (auto simp: butlast_append)
  have a_pre: "prefix (dirHierarchy a) (dirHierarchy x)"
    unfolding a(2) by (rule take_is_prefix)
  have set_eq: "set (filter (\<lambda>c. prefix (dirHierarchy c) (dirHierarchy x)) (childEntries ds e)) = {a}"
  proof (intro equalityI subsetI)
    fix c assume "c \<in> set (filter (\<lambda>c. prefix (dirHierarchy c) (dirHierarchy x)) (childEntries ds e))"
    then have c: "c \<in> set ds" "dirHierarchy c \<noteq> []" "dirHierarchy e = butlast (dirHierarchy c)"
      and p: "prefix (dirHierarchy c) (dirHierarchy x)"
      by (simp_all add: childEntries_iff)
    from child_prefix [OF c(2,3) p] a(2) have "dirHierarchy c = dirHierarchy a" by simp
    from wellFormedDirs_inj [OF wf c(1) a(1) this] show "c \<in> {a}" by simp
  next
    fix c assume "c \<in> {a}"
    then show "c \<in> set (filter (\<lambda>c. prefix (dirHierarchy c) (dirHierarchy x)) (childEntries ds e))"
      using a(1) a_ne a_but a_pre by (simp add: childEntries_iff)
  qed
  have "distinct (filter (\<lambda>c. prefix (dirHierarchy c) (dirHierarchy x)) (childEntries ds e))"
    using wellFormedDirs_distinct [OF wf] by (simp add: childEntries_def)
  from distinct_card [OF this] set_eq
  have "length (filter (\<lambda>c. prefix (dirHierarchy c) (dirHierarchy x)) (childEntries ds e)) = 1"
    by simp
  with True show ?thesis by simp
qed

lemma createRec_count:
  assumes wf: "wellFormedDirs ds" and x: "x \<in> set ds"
    and keep: "\<not> (entryNodes x = [] \<and> length (childEntries ds x) \<le> 1)"
  shows "e \<in> set ds \<Longrightarrow>
     length (filter (\<lambda>t. currentDir t = entryDir x)
               (forestNodes (createDirAndNodesRecursive ds e))) =
     (if prefix (dirHierarchy e) (dirHierarchy x) then 1 else 0)"
proof (induction "remainingDepth ds e" arbitrary: e rule: less_induct)
  case less
  note e = \<open>e \<in> set ds\<close>
  have ih: "\<And>c. c \<in> set (childEntries ds e) \<Longrightarrow>
      length (filter (\<lambda>t. currentDir t = entryDir x)
               (forestNodes (createDirAndNodesRecursive ds c))) =
      (if prefix (dirHierarchy c) (dirHierarchy x) then 1 else 0)"
  proof -
    fix c assume c: "c \<in> set (childEntries ds e)"
    then have "c \<in> set ds" by (simp add: childEntries_iff)
    with less.hyps [OF childEntries_remainingDepth [OF c]] show
      "length (filter (\<lambda>t. currentDir t = entryDir x)
               (forestNodes (createDirAndNodesRecursive ds c))) =
      (if prefix (dirHierarchy c) (dirHierarchy x) then 1 else 0)" .
  qed
  have kids: "length (filter (\<lambda>t. currentDir t = entryDir x)
       (concat (map (\<lambda>c. forestNodes (createDirAndNodesRecursive ds c)) (childEntries ds e)))) =
     (if prefix (dirHierarchy e) (dirHierarchy x) \<and> dirHierarchy e \<noteq> dirHierarchy x
      then 1 else 0)"
  proof -
    have "length (filter (\<lambda>t. currentDir t = entryDir x)
       (concat (map (\<lambda>c. forestNodes (createDirAndNodesRecursive ds c)) (childEntries ds e)))) =
      sum_list (map (\<lambda>c. length (filter (\<lambda>t. currentDir t = entryDir x)
               (forestNodes (createDirAndNodesRecursive ds c)))) (childEntries ds e))"
      by (simp add: length_filter_concat comp_def)
    also have "\<dots> = sum_list (map (\<lambda>c. if prefix (dirHierarchy c) (dirHierarchy x) then 1 else 0)
         (childEntries ds e))"
      using ih by (intro arg_cong [of _ _ sum_list] map_cong) auto
    also have "\<dots> = length (filter (\<lambda>c. prefix (dirHierarchy c) (dirHierarchy x)) (childEntries ds e))"
      by (rule sum_list_indicator)
    also have "\<dots> = (if prefix (dirHierarchy e) (dirHierarchy x) \<and> dirHierarchy e \<noteq> dirHierarchy x
      then 1 else 0)"
      by (rule count_children [OF wf e x])
    finally show ?thesis .
  qed
  have same: "entryDir e = entryDir x \<longleftrightarrow> dirHierarchy e = dirHierarchy x"
  proof
    assume "entryDir e = entryDir x"
    then show "dirHierarchy e = dirHierarchy x"
      using wf e x by (simp add: wellFormedDirs_def)
  next
    assume "dirHierarchy e = dirHierarchy x"
    from wellFormedDirs_inj [OF wf e x this] show "entryDir e = entryDir x" by simp
  qed
  show ?case
  proof (cases "dirHierarchy e = dirHierarchy x")
    case True
    from wellFormedDirs_inj [OF wf e x this] have "e = x" .
    with keep kids True show ?thesis
      by (subst createRec_forestNodes) simp
  next
    case False
    with same have "entryDir e \<noteq> entryDir x" by simp
    with kids False show ?thesis
      by (subst createRec_forestNodes) simp
  qed
qed

text \<open>Every tree node stands for an entry that is not collapsed.\<close>

lemma createRec_provenance:
  "e \<in> set ds \<Longrightarrow> t \<in> set (forestNodes (createDirAndNodesRecursive ds e)) \<Longrightarrow>
   \<exists>y \<in> set ds. \<not> (entryNodes y = [] \<and> length (childEntries ds y) \<le> 1) \<and>
      t = DirAndNodesTree (entryDir y) (entryNodes y)
            (concat (map (createDirAndNodesRecursive ds) (childEntries ds y)))"
proof (induction "remainingDepth ds e" arbitrary: e rule: less_induct)
  case less
  from less.prems(2) consider
    (here) "\<not> (entryNodes e = [] \<and> length (childEntries ds e) \<le> 1)"
      "t = DirAndNodesTree (entryDir e) (entryNodes e)
            (concat (map (createDirAndNodesRecursive ds) (childEntries ds e)))"
    | (below) c where "c \<in> set (childEntries ds e)"
      "t \<in> set (forestNodes (createDirAndNodesRecursive ds c))"
    by (subst (asm) createRec_forestNodes) (auto split: if_splits)
  then show ?case
  proof cases
    case here
    with less.prems(1) show ?thesis by blast
  next
    case below
    from below(1) have "c \<in> set ds" by (simp add: childEntries_iff)
    from less.hyps [OF childEntries_remainingDepth [OF below(1)] this below(2)]
    show ?thesis .
  qed
qed

lemma forest_count:
  assumes wf: "wellFormedDirs ds" and x: "x \<in> set ds"
    and keep: "\<not> (entryNodes x = [] \<and> length (childEntries ds x) \<le> 1)"
  shows "length (filter (\<lambda>t. currentDir t = entryDir x)
      (forestNodes (concat (map (createDirAndNodesRecursive ds)
         (filter (\<lambda>d. length (dirHierarchy d) = 1) ds))))) = 1"
proof -
  let ?roots = "filter (\<lambda>d. length (dirHierarchy d) = 1) ds"
  have hx: "dirHierarchy x \<noteq> []" by (rule wellFormedDirs_hierarchy_nonempty [OF wf x])
  then have len: "(1::nat) \<le> 1" "1 \<le> length (dirHierarchy x)"
    by (cases "dirHierarchy x"; simp)+
  from wellFormedDirs_prefix [OF wf x len] obtain a where a: "a \<in> set ds"
    "dirHierarchy a = take 1 (dirHierarchy x)" by blast
  have a_len: "length (dirHierarchy a) = 1" using a(2) hx by (cases "dirHierarchy x") auto
  have a_pre: "prefix (dirHierarchy a) (dirHierarchy x)"
    unfolding a(2) by (rule take_is_prefix)
  have set_eq: "set (filter (\<lambda>r. prefix (dirHierarchy r) (dirHierarchy x)) ?roots) = {a}"
  proof (intro equalityI subsetI)
    fix r assume "r \<in> set (filter (\<lambda>r. prefix (dirHierarchy r) (dirHierarchy x)) ?roots)"
    then have r: "r \<in> set ds" "length (dirHierarchy r) = 1"
      "prefix (dirHierarchy r) (dirHierarchy x)" by simp_all
    from r(3) obtain s where "dirHierarchy x = dirHierarchy r @ s" by (auto simp: prefix_def)
    with r(2) have "dirHierarchy r = take 1 (dirHierarchy x)" by simp
    with a(2) have "dirHierarchy r = dirHierarchy a" by simp
    from wellFormedDirs_inj [OF wf r(1) a(1) this] show "r \<in> {a}" by simp
  next
    fix r assume "r \<in> {a}"
    with a(1) a_len a_pre
    show "r \<in> set (filter (\<lambda>r. prefix (dirHierarchy r) (dirHierarchy x)) ?roots)" by simp
  qed
  have "distinct (filter (\<lambda>r. prefix (dirHierarchy r) (dirHierarchy x)) ?roots)"
    using wellFormedDirs_distinct [OF wf] by simp
  from distinct_card [OF this] set_eq
  have one: "length (filter (\<lambda>r. prefix (dirHierarchy r) (dirHierarchy x)) ?roots) = 1"
    by simp
  have "length (filter (\<lambda>t. currentDir t = entryDir x)
      (forestNodes (concat (map (createDirAndNodesRecursive ds) ?roots)))) =
     sum_list (map (\<lambda>r. length (filter (\<lambda>t. currentDir t = entryDir x)
        (forestNodes (createDirAndNodesRecursive ds r)))) ?roots)"
    by (simp add: forestNodes_concat length_filter_concat comp_def)
  also have "\<dots> = sum_list (map (\<lambda>r. if prefix (dirHierarchy r) (dirHierarchy x) then 1 else 0) ?roots)"
  proof (intro arg_cong [of _ _ sum_list] map_cong refl)
    fix r assume "r \<in> set ?roots"
    then have "r \<in> set ds" by simp
    then show "length (filter (\<lambda>t. currentDir t = entryDir x)
        (forestNodes (createDirAndNodesRecursive ds r))) =
       (if prefix (dirHierarchy r) (dirHierarchy x) then 1 else 0)"
      by (rule createRec_count [OF wf x keep])
  qed
  also have "\<dots> = length (filter (\<lambda>r. prefix (dirHierarchy r) (dirHierarchy x)) ?roots)"
    by (rule sum_list_indicator)
  finally show ?thesis using one by simp
qed

lemma forest_provenance:
  assumes "t \<in> set (forestNodes (createDirAndNodesTree g))"
  shows "\<exists>y \<in> set (dirAndNodes g).
      \<not> (entryNodes y = [] \<and> length (childEntries (dirAndNodes g) y) \<le> 1) \<and>
      t = DirAndNodesTree (entryDir y) (entryNodes y)
            (concat (map (createDirAndNodesRecursive (dirAndNodes g))
               (childEntries (dirAndNodes g) y)))"
proof -
  from assms obtain r where r: "r \<in> set (dirAndNodes g)"
    "t \<in> set (forestNodes (createDirAndNodesRecursive (dirAndNodes g) r))"
    by (auto simp: createDirAndNodesTree_def forestNodes_concat)
  from createRec_provenance [OF r] show ?thesis .
qed

lemma entry_by_dir:
  assumes "a \<in> set (dirAndNodes g)" and "b \<in> set (dirAndNodes g)"
    and "entryDir a = entryDir b"
  shows "a = b"
proof -
  have "inj_on entryDir (set (dirAndNodes g))"
    using dirAndNodes_wellFormed [of g] by (simp add: wellFormedDirs_def distinct_map)
  with assms show ?thesis by (auto dest: inj_onD)
qed

text \<open>A kept entry is exactly one tree node of the forest.\<close>

lemma kept_entry_tree_node:
  assumes e: "e \<in> set (dirAndNodes g)"
    and keep: "\<not> (entryNodes e = [] \<and> length (childEntries (dirAndNodes g) e) \<le> 1)"
  shows "treeNodesFor (entryDir e) g =
     [DirAndNodesTree (entryDir e) (entryNodes e)
        (concat (map (createDirAndNodesRecursive (dirAndNodes g))
           (childEntries (dirAndNodes g) e)))]"
proof -
  have "length (treeNodesFor (entryDir e) g) = 1"
    unfolding treeNodesFor_def createDirAndNodesTree_def
    by (rule forest_count [OF dirAndNodes_wellFormed e keep])
  then obtain t where t: "treeNodesFor (entryDir e) g = [t]"
    by (cases "treeNodesFor (entryDir e) g") auto
  then have "t \<in> set (treeNodesFor (entryDir e) g)" by simp
  then have mem: "t \<in> set (forestNodes (createDirAndNodesTree g))"
    and dir: "currentDir t = entryDir e"
    by (simp_all add: treeNodesFor_def)
  from forest_provenance [OF mem] obtain y where y: "y \<in> set (dirAndNodes g)"
    "t = DirAndNodesTree (entryDir y) (entryNodes y)
            (concat (map (createDirAndNodesRecursive (dirAndNodes g))
               (childEntries (dirAndNodes g) y)))" by blast
  from y(2) dir have "entryDir y = entryDir e" by simp
  from entry_by_dir [OF y(1) e this] y(2) t show ?thesis by simp
qed

lemma collapsed_entry_absent:
  assumes e: "e \<in> set (dirAndNodes g)"
    and coll: "entryNodes e = [] \<and> length (childEntries (dirAndNodes g) e) \<le> 1"
  shows "treeNodesFor (entryDir e) g = []"
proof (rule ccontr)
  assume "treeNodesFor (entryDir e) g \<noteq> []"
  then obtain t where "t \<in> set (treeNodesFor (entryDir e) g)"
    by (cases "treeNodesFor (entryDir e) g") auto
  then have mem: "t \<in> set (forestNodes (createDirAndNodesTree g))"
    and dir: "currentDir t = entryDir e"
    by (simp_all add: treeNodesFor_def)
  from forest_provenance [OF mem] obtain y where y: "y \<in> set (dirAndNodes g)"
    "\<not> (entryNodes y = [] \<and> length (childEntries (dirAndNodes g) y) \<le> 1)"
    "t = DirAndNodesTree (entryDir y) (entryNodes y)
            (concat (map (createDirAndNodesRecursive (dirAndNodes g))
               (childEntries (dirAndNodes g) y)))" by blast
  from y(3) dir have "entryDir y = entryDir e" by simp
  from entry_by_dir [OF y(1) e this] y(2) coll show False by simp
qed

lemma holders_by_dir:
  assumes n: "n \<in> set (nodes g)"
  shows "holders n g =
     filter (\<lambda>t. getDirectoryPath (path n) = Some (currentDir t))
       (forestNodes (createDirAndNodesTree g))"
  unfolding holders_def
proof (rule filter_cong [OF refl])
  fix t assume "t \<in> set (forestNodes (createDirAndNodesTree g))"
  from forest_provenance [OF this] obtain y where y: "y \<in> set (dirAndNodes g)"
    "t = DirAndNodesTree (entryDir y) (entryNodes y)
            (concat (map (createDirAndNodesRecursive (dirAndNodes g))
               (childEntries (dirAndNodes g) y)))" by blast
  show "(n \<in> set (treeNodes t)) = (getDirectoryPath (path n) = Some (currentDir t))"
    using n by (simp add: y(2) dirAndNodes_nodes [OF y(1)])
qed

lemma holders_top_level:
  assumes "n \<in> set (nodes g)" and "getDirectoryPath (path n) = None"
  shows "holders n g = []"
  by (simp add: holders_by_dir [OF assms(1)] assms(2))

lemma holders_in_directory:
  assumes n: "n \<in> set (nodes g)" and d: "getDirectoryPath (path n) = Some d"
  shows "\<exists>t. holders n g = [t] \<and> currentDir t = d \<and> n \<in> set (treeNodes t)"
proof -
  from dirAndNodes_covers [OF n d] obtain e where e: "e \<in> set (dirAndNodes g)"
    "entryDir e = d" "n \<in> set (entryNodes e)" by blast
  then have keep: "\<not> (entryNodes e = [] \<and> length (childEntries (dirAndNodes g) e) \<le> 1)"
    by auto
  have "holders n g = treeNodesFor d g"
    by (auto simp: holders_by_dir [OF n] d treeNodesFor_def intro: filter_cong)
  with kept_entry_tree_node [OF e(1) keep] e(2,3) show ?thesis by simp
qed

lemmas eval_tree = createDirAndNodesTree_def dirAndNodes_def allDir_def ancestorDirs_def
  pushAncestor_def pushDir_def childEntries_def isChild_def eval_path nodeAt_def
  createDirAndNodesRecursive.simps

lemma deepGraph_tree:
  "createDirAndNodesTree deepGraph =
     [DirAndNodesTree ''a/b/c'' [nodeAt ''a/b/c/x'', nodeAt ''a/b/c/y''] []]"
  by (simp add: deepGraph_def eval_tree)

lemma nestedGraph_tree:
  "createDirAndNodesTree nestedGraph =
     [DirAndNodesTree ''a'' [nodeAt ''a/x'']
        [DirAndNodesTree ''a/b'' [nodeAt ''a/b/y''] []]]"
  by (simp add: nestedGraph_def eval_tree)

lemma topLevelGraph_tree:
  "createDirAndNodesTree topLevelGraph = [DirAndNodesTree ''src'' [nodeAt ''src/a.ts''] []]"
  by (simp add: topLevelGraph_def eval_tree)

text \<open>
  Claim C3 (as amended). Every node of the graph whose path has a directory appears
  in the nodes list of exactly one tree node of the forest, and the \<open>currentDir\<close> of
  that tree node is the directory computed from the node's path. A node whose path
  has no directory (a top-level file) appears in no tree node.
\<close>

theorem node_in_one_tree_node:
  "n \<in> set (nodes g) \<longrightarrow>
     (case getDirectoryPath (path n) of
        None \<Rightarrow> holders n g = []
      | Some d \<Rightarrow> \<exists>t. holders n g = [t] \<and> currentDir t = d \<and> n \<in> set (treeNodes t))"
proof
  assume n: "n \<in> set (nodes g)"
  show "case getDirectoryPath (path n) of
        None \<Rightarrow> holders n g = []
      | Some d \<Rightarrow> \<exists>t. holders n g = [t] \<and> currentDir t = d \<and> n \<in> set (treeNodes t)"
  proof (cases "getDirectoryPath (path n)")
    case None
    with holders_top_level [OF n] show ?thesis by simp
  next
    case (Some d)
    with holders_in_directory [OF n] show ?thesis by simp
  qed
qed

text \<open>
  The top-level file \<open>index.ts\<close> is a node of the graph and no tree node of the
  forest holds it.
\<close>

theorem node_in_one_tree_node_counterexample:
  "nodeAt ''index.ts'' \<in> set (nodes topLevelGraph) \<and>
   holders (nodeAt ''index.ts'') topLevelGraph = []"
  by (simp add: holders_def topLevelGraph_tree forestNodes_def)
     (simp add: topLevelGraph_def nodeAt_def)

theorem node_in_one_tree_node_witness:
  "nodeAt ''a/b/y'' \<in> set (nodes nestedGraph) \<and>
   getDirectoryPath (path (nodeAt ''a/b/y'')) = Some ''a/b'' \<and>
   holders (nodeAt ''a/b/y'') nestedGraph = [DirAndNodesTree ''a/b'' [nodeAt ''a/b/y''] []]"
proof -
  have n: "nodeAt ''a/b/y'' \<in> set (nodes nestedGraph)"
    by (simp add: nestedGraph_def)
  have d: "getDirectoryPath (path (nodeAt ''a/b/y'')) = Some ''a/b''"
    by (simp add: nodeAt_def eval_path)
  have h: "holders (nodeAt ''a/b/y'') nestedGraph = [DirAndNodesTree ''a/b'' [nodeAt ''a/b/y''] []]"
    using node_in_one_tree_node [of "nodeAt ''a/b/y''" nestedGraph] n d
    by (simp add: holders_def nestedGraph_tree forestNodes_def nodeAt_def)
  from n d h show ?thesis by simp
qed

text \<open>
  Claim C4. In the forest of any graph: a directory entry without files and with at
  most one child directory is no tree node, and the recursion yields in its place what
  it yields for its children (nothing when it has none, the result of the single child
  otherwise); a directory entry with a file or with two or more child directories is
  exactly one tree node, holding its files and, as children, the results of its child
  directories. For the nodes \<open>a/b/c/x\<close> and \<open>a/b/c/y\<close> the forest is the single
  tree node \<open>a/b/c\<close> with both files; for \<open>a/x\<close> and \<open>a/b/y\<close> it is the tree
  node \<open>a\<close> holding \<open>a/x\<close> with the single child \<open>a/b\<close> holding \<open>a/b/y\<close>.
\<close>

theorem collapsing_rule:
  "(e \<in> set (dirAndNodes g) \<and> entryNodes e = [] \<and>
      length (childEntries (dirAndNodes g) e) \<le> 1 \<longrightarrow>
        treeNodesFor (entryDir e) g = [] \<and>
        createDirAndNodesRecursive (dirAndNodes g) e =
          concat (map (createDirAndNodesRecursive (dirAndNodes g))
            (childEntries (dirAndNodes g) e)) \<and>
        (childEntries (dirAndNodes g) e = [] \<longrightarrow>
           createDirAndNodesRecursive (dirAndNodes g) e = []) \<and>
        (\<forall>c. childEntries (dirAndNodes g) e = [c] \<longrightarrow>
           createDirAndNodesRecursive (dirAndNodes g) e =
             createDirAndNodesRecursive (dirAndNodes g) c)) \<and>
   (e \<in> set (dirAndNodes g) \<and>
      (entryNodes e \<noteq> [] \<or> 2 \<le> length (childEntries (dirAndNodes g) e)) \<longrightarrow>
        treeNodesFor (entryDir e) g =
          [DirAndNodesTree (entryDir e) (entryNodes e)
             (concat (map (createDirAndNodesRecursive (dirAndNodes g))
                (childEntries (dirAndNodes g) e)))]) \<and>
   createDirAndNodesTree deepGraph =
     [DirAndNodesTree ''a/b/c'' [nodeAt ''a/b/c/x'', nodeAt ''a/b/c/y''] []] \<and>
   createDirAndNodesTree nestedGraph =
     [DirAndNodesTree ''a'' [nodeAt ''a/x'']
        [DirAndNodesTree ''a/b'' [nodeAt ''a/b/y''] []]]"
proof (intro conjI impI allI)
  assume h: "e \<in> set (dirAndNodes g) \<and> entryNodes e = [] \<and>
      length (childEntries (dirAndNodes g) e) \<le> 1"
  then show "treeNodesFor (entryDir e) g = []"
    using collapsed_entry_absent [of e g] by simp
  from h show rec: "createDirAndNodesRecursive (dirAndNodes g) e =
          concat (map (createDirAndNodesRecursive (dirAndNodes g))
            (childEntries (dirAndNodes g) e))"
    by (subst createDirAndNodesRecursive.simps) simp
  {
    assume "childEntries (dirAndNodes g) e = []"
    with rec show "createDirAndNodesRecursive (dirAndNodes g) e = []" by simp
  }
  {
    fix c assume "childEntries (dirAndNodes g) e = [c]"
    with rec show "createDirAndNodesRecursive (dirAndNodes g) e =
             createDirAndNodesRecursive (dirAndNodes g) c" by simp
  }
next
  assume h: "e \<in> set (dirAndNodes g) \<and>
      (entryNodes e \<noteq> [] \<or> 2 \<le> length (childEntries (dirAndNodes g) e))"
  then have "\<not> (entryNodes e = [] \<and> length (childEntries (dirAndNodes g) e) \<le> 1)"
    by auto
  with h kept_entry_tree_node [of e g] show "treeNodesFor (entryDir e) g =
          [DirAndNodesTree (entryDir e) (entryNodes e)
             (concat (map (createDirAndNodesRecursive (dirAndNodes g))
                (childEntries (dirAndNodes g) e)))]" by blast
next
  show "createDirAndNodesTree deepGraph =
     [DirAndNodesTree ''a/b/c'' [nodeAt ''a/b/c/x'', nodeAt ''a/b/c/y''] []]"
    by (rule deepGraph_tree)
  show "createDirAndNodesTree nestedGraph =
     [DirAndNodesTree ''a'' [nodeAt ''a/x'']
        [DirAndNodesTree ''a/b'' [nodeAt ''a/b/y''] []]]"
    by (rule nestedGraph_tree)
qed

lemmas eval_entries = dirAndNodes_def allDir_def ancestorDirs_def
  pushAncestor_def pushDir_def childEntries_def isChild_def eval_path nodeAt_def

theorem collapsing_rule_witness:
  "emptyDirA \<in> set (dirAndNodes deepGraph) \<and> entryNodes emptyDirA = [] \<and>
   length (childEntries (dirAndNodes deepGraph) emptyDirA) \<le> 1 \<and>
   treeNodesFor ''a'' deepGraph = [] \<and>
   ownerDirA \<in> set (dirAndNodes nestedGraph) \<and> entryNodes ownerDirA \<noteq> [] \<and>
   treeNodesFor ''a'' nestedGraph =
     [DirAndNodesTree ''a'' [nodeAt ''a/x''] [DirAndNodesTree ''a/b'' [nodeAt ''a/b/y''] []]]"
proof -
  have c: "emptyDirA \<in> set (dirAndNodes deepGraph) \<and> entryNodes emptyDirA = [] \<and>
      length (childEntries (dirAndNodes deepGraph) emptyDirA) \<le> 1"
    by (simp add: emptyDirA_def deepGraph_def eval_entries)
  have k: "ownerDirA \<in> set (dirAndNodes nestedGraph) \<and> entryNodes ownerDirA \<noteq> []"
    by (simp add: ownerDirA_def nestedGraph_def eval_entries)
  have 1: "treeNodesFor (entryDir emptyDirA) deepGraph = []"
    using collapsing_rule [of emptyDirA deepGraph] c by blast
  have 2: "treeNodesFor (entryDir ownerDirA) nestedGraph =
      [DirAndNodesTree (entryDir ownerDirA) (entryNodes ownerDirA)
         (concat (map (createDirAndNodesRecursive (dirAndNodes nestedGraph))
            (childEntries (dirAndNodes nestedGraph) ownerDirA)))]"
    using collapsing_rule [of ownerDirA nestedGraph] k by blast
  have "concat (map (createDirAndNodesRecursive (dirAndNodes nestedGraph))
            (childEntries (dirAndNodes nestedGraph) ownerDirA)) =
      [DirAndNodesTree ''a/b'' [nodeAt ''a/b/y''] []]"
    by (simp add: ownerDirA_def nestedGraph_def eval_entries createDirAndNodesRecursive.simps)
  with 2 have 3: "treeNodesFor ''a'' nestedGraph =
     [DirAndNodesTree ''a'' [nodeAt ''a/x''] [DirAndNodesTree ''a/b'' [nodeAt ''a/b/y''] []]]"
    by (simp add: ownerDirA_def)
  from c k 1 3 show ?thesis by (simp add: emptyDirA_def)
qed

section \<open>Properties of the serializer\<close>

text \<open>Every writer only appends to the sink.\<close>

lemma fold_write_lines:
  "fold (\<lambda>x o1. writeArg newline (writeArg (f x) o1)) xs out =
     out @ concat (map (\<lambda>x. [f x, newline]) xs)"
  by (induction xs arbitrary: out) (simp_all add: writeArg_def)

lemma fold_append_lines:
  "fold (\<lambda>x o1. o1 @ [f x, newline]) xs out = out @ concat (map (\<lambda>x. [f x, newline]) xs)"
  by (induction xs arbitrary: out) simp_all

lemma writeRelations_lines:
  "writeRelations rs out = out @ concat (map (\<lambda>r. [arrowLine r, newline]) rs)"
  unfolding writeRelations_def by (rule fold_write_lines)

lemma addGraph_append:
  "addGraph t i parent (xs @ out) = xs @ addGraph t i parent out"
  "addGraphs ts i parent (xs @ out) = xs @ addGraphs ts i parent out"
proof (induction t i parent out and ts i parent out arbitrary: xs and xs
    rule: addGraph_addGraphs.induct)
  case (1 dir ns cs indentNumber parent out)
  have "addGraphs cs (indentNumber + 1) (Some dir)
          ((xs @ out) @ [subgraphLine (indentFor indentNumber) parent dir, newline] @
            concat (map (\<lambda>node. [nodeLine (indentFor indentNumber) node, newline]) ns)) =
        xs @ addGraphs cs (indentNumber + 1) (Some dir)
          (out @ [subgraphLine (indentFor indentNumber) parent dir, newline] @
            concat (map (\<lambda>node. [nodeLine (indentFor indentNumber) node, newline]) ns))"
    using 1 [of xs] by (simp add: fold_append_lines writeArg_def)
  then show ?case by (simp add: fold_append_lines writeArg_def)
next
  case (2 indentNumber parent out)
  show ?case by simp
next
  case (3 child cs indentNumber parent out)
  show ?case by (simp add: 3)
qed

lemma writeFileNodesWithSubgraph_appends:
  "writeFileNodesWithSubgraph trees out = out @ writeFileNodesWithSubgraph trees []"
proof -
  have "\<And>xs acc. fold (\<lambda>tree o1. addGraph tree 0 None o1) trees (xs @ acc) =
      xs @ fold (\<lambda>tree o1. addGraph tree 0 None o1) trees acc"
    by (induction trees) (simp_all add: addGraph_append)
  from this [of out "[]"] show ?thesis by (simp add: writeFileNodesWithSubgraph_def)
qed

lemma addLink_append:
  "addLink t root (xs @ out) = xs @ addLink t root out"
  "addLinks ts root (xs @ out) = xs @ addLinks ts root out"
proof (induction t root out and ts root out arbitrary: xs and xs rule: addLink_addLinks.induct)
  case (1 dir ns cs root out)
  have "addLinks cs root ((xs @ out) @ concat (map (\<lambda>node. [linkLine root node, newline]) ns)) =
      xs @ addLinks cs root (out @ concat (map (\<lambda>node. [linkLine root node, newline]) ns))"
    using 1 [of xs] by (simp add: fold_write_lines)
  then show ?case by (simp add: fold_write_lines)
next
  case (2 root out)
  show ?case by simp
next
  case (3 child cs root out)
  show ?case by (simp add: 3)
qed

lemma writeFileLink_appends:
  "writeFileLink trees root out = out @ writeFileLink trees root []"
proof -
  have "\<And>xs acc. fold (\<lambda>tree o1. addLink tree root o1) trees (xs @ acc) =
      xs @ fold (\<lambda>tree o1. addLink tree root o1) trees acc"
    by (induction trees) (simp_all add: addLink_append)
  from this [of out "[]"] show ?thesis by (simp add: writeFileLink_def)
qed

lemma writeHeader_appends: "writeHeader options out = out @ writeHeader options []"
  by (simp add: writeHeader_def writeArg_def Let_def)

text \<open>
  Claim C7. The output of the serializer is the header, then the lines of the tree,
  then for each relation of the graph, in the order of the relation sequence, one
  arrow line built from the sanitized identifiers of its two endpoints (followed by a
  line feed), then the link lines if they are enabled. Nothing is sorted or
  deduplicated: the graph with the relation from \<open>a\<close> to \<open>b\<close> listed twice gets
  the arrow line twice.
\<close>

theorem relations_rendered_in_order:
  "mermaidify options g out =
     out @ writeHeader options [] @
     writeFileNodesWithSubgraph (createDirAndNodesTree g) [] @
     concat (map (\<lambda>r. [arrowLine r, newline]) (relations g)) @
     (if mermaidLink options then writeFileLink (createDirAndNodesTree g) (rootDir options) []
      else []) \<and>
   arrowLine r =
     ''    '' @ fileNameToMermaidId (path (rfrom r)) @ ''-->'' @ fileNameToMermaidId (path (rto r)) \<and>
   writeRelations (relations dupGraph) [] =
     [''    a-->b'', newline, ''    a-->b'', newline]"
proof (intro conjI)
  let ?T = "createDirAndNodesTree g"
  have "mermaidify options g out =
      (if mermaidLink options
       then writeFileLink ?T (rootDir options)
              (writeRelations (relations g) (writeFileNodesWithSubgraph ?T (writeHeader options out)))
       else writeRelations (relations g) (writeFileNodesWithSubgraph ?T (writeHeader options out)))"
    by (simp add: mermaidify_def mermaidifyWith_def Let_def)
  also have "writeRelations (relations g) (writeFileNodesWithSubgraph ?T (writeHeader options out)) =
      out @ writeHeader options [] @ writeFileNodesWithSubgraph ?T [] @
      concat (map (\<lambda>r. [arrowLine r, newline]) (relations g))"
    by (subst writeRelations_lines, subst writeFileNodesWithSubgraph_appends,
        subst writeHeader_appends, simp)
  finally show "mermaidify options g out =
     out @ writeHeader options [] @
     writeFileNodesWithSubgraph (createDirAndNodesTree g) [] @
     concat (map (\<lambda>r. [arrowLine r, newline]) (relations g)) @
     (if mermaidLink options then writeFileLink (createDirAndNodesTree g) (rootDir options) []
      else [])"
    by (simp, subst writeFileLink_appends, simp)
next
  show "arrowLine r =
     ''    '' @ fileNameToMermaidId (path (rfrom r)) @ ''-->'' @ fileNameToMermaidId (path (rto r))"
    by (simp add: arrowLine_def)
next
  show "writeRelations (relations dupGraph) [] =
     [''    a-->b'', newline, ''    a-->b'', newline]"
    by (simp add: writeRelations_lines dupGraph_def rel_def nodeAt_def arrowLine_def
        fileNameToMermaidId_def singleSeparators_def consHead_def)
qed

section \<open>The recursions on a bounded stack\<close>



lemma maxList_le_iff: "maxList xs \<le> m \<longleftrightarrow> (\<forall>x \<in> set xs. x \<le> m)"
  by (induction xs) (simp_all add: maxList_def)







text \<open>The trees of the tree builder are no higher than the directories are deep.\<close>

lemma height_le_iff:
  "height t \<le> Suc m \<longleftrightarrow> (\<forall>c \<in> set (children t). height c \<le> m)"
  by (cases t) (simp add: maxList_le_iff)
















section \<open>Properties of the graph filter on the store\<close>

lemma bridgeCallback_result:
  assumes "tn < length (nodeArrays s)" and "tr < length (relationArrays s)"
  shows "bridgeCallback tn tr r s =
     (list_ex (\<lambda>node. isSameNode node (rfrom r)) (relationNodes (nodesOf s tn) (relationsOf s tr)) \<and>
      list_ex (\<lambda>node. isSameNode node (rto r)) (relationNodes (nodesOf s tn) (relationsOf s tr)),
      s\<lparr> nodeArrays := nodeArrays s @
           [endpoints (relationsOf s tr), getUniqueNodes (endpoints (relationsOf s tr)),
            relationNodes (nodesOf s tn) (relationsOf s tr)] \<rparr>)"
  using assms
  by (simp add: bridgeCallback_def newNodes_def nodesOf_def relationsOf_def relationNodes_def
      Let_def nth_append)

lemma filterOnStore_bridge:
  assumes "tn < length (nodeArrays s)" and "tr < length (relationArrays s)"
  shows "\<exists>temps. filterOnStore (bridgeCallback tn tr) rs s =
     (readmitted (nodesOf s tn) (relationsOf s tr) rs, s\<lparr> nodeArrays := nodeArrays s @ temps \<rparr>)"
  using assms
proof (induction rs arbitrary: s)
  case Nil
  have "filterOnStore (bridgeCallback tn tr) [] s =
      (readmitted (nodesOf s tn) (relationsOf s tr) [], s\<lparr> nodeArrays := nodeArrays s @ [] \<rparr>)"
    by (simp add: readmitted_def)
  then show ?case by blast
next
  case (Cons r rs)
  let ?three = "[endpoints (relationsOf s tr), getUniqueNodes (endpoints (relationsOf s tr)),
            relationNodes (nodesOf s tn) (relationsOf s tr)]"
  let ?s1 = "s\<lparr> nodeArrays := nodeArrays s @ ?three \<rparr>"
  have v: "tn < length (nodeArrays ?s1)" "tr < length (relationArrays ?s1)"
    using Cons.prems by simp_all
  have same: "nodesOf ?s1 tn = nodesOf s tn" "relationsOf ?s1 tr = relationsOf s tr"
    using Cons.prems by (simp_all add: nodesOf_def relationsOf_def nth_append)
  from Cons.IH [OF v] obtain temps where t:
    "filterOnStore (bridgeCallback tn tr) rs ?s1 =
       (readmitted (nodesOf s tn) (relationsOf s tr) rs, ?s1\<lparr> nodeArrays := nodeArrays ?s1 @ temps \<rparr>)"
    unfolding same by blast
  have "filterOnStore (bridgeCallback tn tr) (r # rs) s =
      (readmitted (nodesOf s tn) (relationsOf s tr) (r # rs),
       s\<lparr> nodeArrays := nodeArrays s @ (?three @ temps) \<rparr>)"
    by (simp add: bridgeCallback_result [OF Cons.prems] t readmitted_def)
  then show ?case by blast
qed

lemma workingSetsOnStore_result:
  assumes "validRef s gr"
  shows "\<exists>a b. workingSetsOnStore incl excl gr s =
     (length (nodeArrays s) + length a, length (relationArrays s) + length b,
      s\<lparr> nodeArrays := nodeArrays s @ a @ [tmpNodes incl excl (graphOf s gr)],
         relationArrays := relationArrays s @ b @ [tmpRelations incl excl (graphOf s gr)] \<rparr>)"
proof -
  let ?n = "nodesOf s (nodesRef gr)" and ?r = "relationsOf s (relationsRef gr)"
  have v: "nodesRef gr < length (nodeArrays s)" "relationsRef gr < length (relationArrays s)"
    using assms by (simp_all add: validRef_def)
  consider (none) "\<not> isActive incl" "\<not> isActive excl"
    | (inc) "isActive incl" "\<not> isActive excl"
    | (exc) "\<not> isActive incl" "isActive excl"
    | (both) "isActive incl" "isActive excl" by blast
  then show ?thesis
  proof cases
    case none
    then have "workingSetsOnStore incl excl gr s =
       (length (nodeArrays s) + length ([] :: Node list list),
        length (relationArrays s) + length ([] :: Relation list list),
        s\<lparr> nodeArrays := nodeArrays s @ [] @ [tmpNodes incl excl (graphOf s gr)],
           relationArrays := relationArrays s @ [] @ [tmpRelations incl excl (graphOf s gr)] \<rparr>)"
      using v
      by (simp add: workingSetsOnStore_def newNodes_def newRelations_def nodesOf_def
          relationsOf_def graphOf_def tmpNodes_def tmpRelations_def Let_def nth_append)
    then show ?thesis by blast
  next
    case inc
    then have "workingSetsOnStore incl excl gr s =
       (length (nodeArrays s) + length [?n], length (relationArrays s) + length [?r],
        s\<lparr> nodeArrays := nodeArrays s @ [?n] @ [tmpNodes incl excl (graphOf s gr)],
           relationArrays := relationArrays s @ [?r] @ [tmpRelations incl excl (graphOf s gr)] \<rparr>)"
      using v
      by (simp add: workingSetsOnStore_def newNodes_def newRelations_def nodesOf_def
          relationsOf_def graphOf_def tmpNodes_def tmpRelations_def Let_def nth_append)
    then show ?thesis by blast
  next
    case exc
    then have "workingSetsOnStore incl excl gr s =
       (length (nodeArrays s) + length [?n], length (relationArrays s) + length [?r],
        s\<lparr> nodeArrays := nodeArrays s @ [?n] @ [tmpNodes incl excl (graphOf s gr)],
           relationArrays := relationArrays s @ [?r] @ [tmpRelations incl excl (graphOf s gr)] \<rparr>)"
      using v
      by (simp add: workingSetsOnStore_def newNodes_def newRelations_def nodesOf_def
          relationsOf_def graphOf_def tmpNodes_def tmpRelations_def Let_def nth_append)
    then show ?thesis by blast
  next
    case both
    then have "workingSetsOnStore incl excl gr s =
       (length (nodeArrays s) + length [?n, filter (pathMatches (the incl)) ?n],
        length (relationArrays s) + length [?r, filter (relationMatches (the incl)) ?r],
        s\<lparr> nodeArrays := nodeArrays s @ [?n, filter (pathMatches (the incl)) ?n] @
              [tmpNodes incl excl (graphOf s gr)],
           relationArrays := relationArrays s @ [?r, filter (relationMatches (the incl)) ?r] @
              [tmpRelations incl excl (graphOf s gr)] \<rparr>)"
      using v
      by (simp add: workingSetsOnStore_def newNodes_def newRelations_def nodesOf_def
          relationsOf_def graphOf_def tmpNodes_def tmpRelations_def Let_def nth_append)
    then show ?thesis by blast
  qed
qed

lemma filterGraphOnStore_result:
  assumes "validRef s gr"
  shows "\<exists>a b. filterGraphOnStore incl excl gr s =
     (\<lparr> nodesRef = length (nodeArrays s) + length a,
         relationsRef = length (relationArrays s) + length b \<rparr>,
      s\<lparr> nodeArrays := nodeArrays s @ a @ [nodes (filterGraph incl excl (graphOf s gr))],
         relationArrays := relationArrays s @ b @ [relations (filterGraph incl excl (graphOf s gr))] \<rparr>)"
proof -
  let ?g = "graphOf s gr"
  let ?tn = "tmpNodes incl excl ?g" and ?tr = "tmpRelations incl excl ?g"
  have v: "nodesRef gr < length (nodeArrays s)" "relationsRef gr < length (relationArrays s)"
    using assms by (simp_all add: validRef_def)
  from workingSetsOnStore_result [OF assms, of incl excl] obtain a b where w:
    "workingSetsOnStore incl excl gr s =
     (length (nodeArrays s) + length a, length (relationArrays s) + length b,
      s\<lparr> nodeArrays := nodeArrays s @ a @ [?tn], relationArrays := relationArrays s @ b @ [?tr] \<rparr>)"
    by blast
  let ?s6 = "s\<lparr> nodeArrays := nodeArrays s @ a @ [?tn], relationArrays := relationArrays s @ b @ [?tr] \<rparr>"
  let ?tn2 = "length (nodeArrays s) + length a" and ?tr2 = "length (relationArrays s) + length b"
  have v6: "?tn2 < length (nodeArrays ?s6)" "?tr2 < length (relationArrays ?s6)" by simp_all
  have r6: "nodesOf ?s6 ?tn2 = ?tn" "relationsOf ?s6 ?tr2 = ?tr"
    "relationsOf ?s6 (relationsRef gr) = relations ?g"
    using v by (simp_all add: nodesOf_def relationsOf_def graphOf_def nth_append)
  from filterOnStore_bridge [OF v6, of "relations ?g"] obtain temps where f:
    "filterOnStore (bridgeCallback ?tn2 ?tr2) (relations ?g) ?s6 =
       (readmitted ?tn ?tr (relations ?g), ?s6\<lparr> nodeArrays := nodeArrays ?s6 @ temps \<rparr>)"
    unfolding r6 by blast
  let ?tr' = "getUniqueRelations (?tr @ readmitted ?tn ?tr (relations ?g))"
  have "filterGraphOnStore incl excl gr s =
     (\<lparr> nodesRef = length (nodeArrays s) + length (a @ [?tn] @ temps @ [?tn @ endpoints ?tr']),
         relationsRef = length (relationArrays s) +
            length (b @ [?tr] @ [readmitted ?tn ?tr (relations ?g),
                                 ?tr @ readmitted ?tn ?tr (relations ?g)]) \<rparr>,
      s\<lparr> nodeArrays := nodeArrays s @ (a @ [?tn] @ temps @ [?tn @ endpoints ?tr']) @
            [nodes (filterGraph incl excl ?g)],
         relationArrays := relationArrays s @
            (b @ [?tr] @ [readmitted ?tn ?tr (relations ?g),
                          ?tr @ readmitted ?tn ?tr (relations ?g)]) @
            [relations (filterGraph incl excl ?g)] \<rparr>)"
    unfolding filterGraphOnStore_def w
    by (simp only: Let_def split r6(3) f)
       (simp add: newNodes_def newRelations_def nodesOf_def relationsOf_def nth_append
          filterGraph_def extractUniqueNodes_def Let_def)
  then show ?thesis by blast
qed

text \<open>
  Claim C9. Run on a store in which the graph's two references are valid, the filter
  leaves every array that existed before the call as it was, so the input graph reads
  the same after the call; the two references it returns are cells allocated during
  the call, and they hold the result of the filter; a second call with the same
  input, on the store the first call left, returns an equal result.
\<close>

theorem filterGraph_frame:
  "validRef s gr \<longrightarrow>
     extends s (snd (filterGraphOnStore incl excl gr s)) \<and>
     graphOf (snd (filterGraphOnStore incl excl gr s)) gr = graphOf s gr \<and>
     length (nodeArrays s) \<le> nodesRef (fst (filterGraphOnStore incl excl gr s)) \<and>
     length (relationArrays s) \<le> relationsRef (fst (filterGraphOnStore incl excl gr s)) \<and>
     validRef (snd (filterGraphOnStore incl excl gr s)) (fst (filterGraphOnStore incl excl gr s)) \<and>
     graphOf (snd (filterGraphOnStore incl excl gr s)) (fst (filterGraphOnStore incl excl gr s)) =
       filterGraph incl excl (graphOf s gr) \<and>
     graphOf (snd (filterGraphOnStore incl excl gr (snd (filterGraphOnStore incl excl gr s))))
             (fst (filterGraphOnStore incl excl gr (snd (filterGraphOnStore incl excl gr s)))) =
       graphOf (snd (filterGraphOnStore incl excl gr s)) (fst (filterGraphOnStore incl excl gr s))"
proof
  assume v: "validRef s gr"
  from filterGraphOnStore_result [OF v, of incl excl] obtain a b where r:
    "filterGraphOnStore incl excl gr s =
     (\<lparr> nodesRef = length (nodeArrays s) + length a,
         relationsRef = length (relationArrays s) + length b \<rparr>,
      s\<lparr> nodeArrays := nodeArrays s @ a @ [nodes (filterGraph incl excl (graphOf s gr))],
         relationArrays := relationArrays s @ b @ [relations (filterGraph incl excl (graphOf s gr))] \<rparr>)"
    by blast
  let ?s' = "snd (filterGraphOnStore incl excl gr s)"
  let ?res = "fst (filterGraphOnStore incl excl gr s)"
  have ext: "extends s ?s'" by (simp add: r extends_def)
  have same: "graphOf ?s' gr = graphOf s gr"
    using v by (simp add: r graphOf_def nodesOf_def relationsOf_def validRef_def nth_append)
  have fresh: "length (nodeArrays s) \<le> nodesRef ?res" "length (relationArrays s) \<le> relationsRef ?res"
    by (simp_all add: r)
  have valid: "validRef ?s' ?res" by (simp add: r validRef_def)
  have content: "graphOf ?s' ?res = filterGraph incl excl (graphOf s gr)"
    by (simp add: r graphOf_def nodesOf_def relationsOf_def nth_append)
  have v': "validRef ?s' gr" using v by (simp add: r validRef_def)
  from filterGraphOnStore_result [OF v', of incl excl] obtain a' b' where r':
    "filterGraphOnStore incl excl gr ?s' =
     (\<lparr> nodesRef = length (nodeArrays ?s') + length a',
         relationsRef = length (relationArrays ?s') + length b' \<rparr>,
      ?s'\<lparr> nodeArrays := nodeArrays ?s' @ a' @ [nodes (filterGraph incl excl (graphOf ?s' gr))],
          relationArrays := relationArrays ?s' @ b' @ [relations (filterGraph incl excl (graphOf ?s' gr))] \<rparr>)"
    by blast
  have again: "graphOf (snd (filterGraphOnStore incl excl gr ?s'))
      (fst (filterGraphOnStore incl excl gr ?s')) = filterGraph incl excl (graphOf ?s' gr)"
    unfolding r' by (simp add: graphOf_def nodesOf_def relationsOf_def nth_append)
  from ext same fresh valid content again
  show "extends s ?s' \<and> graphOf ?s' gr = graphOf s gr \<and>
     length (nodeArrays s) \<le> nodesRef ?res \<and> length (relationArrays s) \<le> relationsRef ?res \<and>
     validRef ?s' ?res \<and> graphOf ?s' ?res = filterGraph incl excl (graphOf s gr) \<and>
     graphOf (snd (filterGraphOnStore incl excl gr ?s')) (fst (filterGraphOnStore incl excl gr ?s')) =
       graphOf ?s' ?res"
    by simp
qed

theorem filterGraph_frame_witness:
  "validRef triangleStore triangleRef \<and>
   graphOf triangleStore triangleRef = triangleGraph \<and>
   graphOf (snd (filterGraphOnStore (Some [''a'']) None triangleRef triangleStore)) triangleRef =
     triangleGraph \<and>
   graphOf (snd (filterGraphOnStore (Some [''a'']) None triangleRef triangleStore))
           (fst (filterGraphOnStore (Some [''a'']) None triangleRef triangleStore)) =
     filterGraph (Some [''a'']) None triangleGraph"
proof -
  have v: "validRef triangleStore triangleRef"
    by (simp add: validRef_def triangleStore_def triangleRef_def)
  have g: "graphOf triangleStore triangleRef = triangleGraph"
    by (simp add: graphOf_def nodesOf_def relationsOf_def triangleStore_def triangleRef_def)
  from filterGraph_frame [of triangleStore triangleRef "Some [''a'']" None] v g
  show ?thesis by simp
qed

end
